theory Spec2Isabelle
  imports Main
begin

section \<open>The image cache: a JavaScript Map used as a bounded LRU\<close>

text \<open>
  A JavaScript \<^verbatim>\<open>Map\<close> iterates in insertion order, its keys are unique, and
  \<^verbatim>\<open>set\<close> on a key that is present keeps the key's position. It is modelled as an
  association list in insertion order (oldest first); the operations below are the Map
  methods the extension calls. The representation invariant of a Map is
  \<open>distinct (map fst m)\<close>.
\<close>

type_synonym ('k, 'v) jsmap = "('k \<times> 'v) list"

definition Map_has :: "('k, 'v) jsmap \<Rightarrow> 'k \<Rightarrow> bool" where
  "Map_has m k = (k \<in> set (map fst m))"

definition Map_get :: "('k, 'v) jsmap \<Rightarrow> 'k \<Rightarrow> 'v option" where
  "Map_get m k = map_of m k"

definition Map_delete :: "('k, 'v) jsmap \<Rightarrow> 'k \<Rightarrow> ('k, 'v) jsmap" where
  "Map_delete m k = filter (\<lambda>e. fst e \<noteq> k) m"

definition Map_set :: "('k, 'v) jsmap \<Rightarrow> 'k \<Rightarrow> 'v \<Rightarrow> ('k, 'v) jsmap" where
  "Map_set m k v =
     (if Map_has m k then map (\<lambda>e. if fst e = k then (k, v) else e) m
      else m @ [(k, v)])"

definition Map_size :: "('k, 'v) jsmap \<Rightarrow> nat" where
  "Map_size m = length m"

text \<open>\<^verbatim>\<open>m.keys().next().value\<close>: the first key in insertion order, undefined for an empty Map.\<close>

definition Map_first_key :: "('k, 'v) jsmap \<Rightarrow> 'k option" where
  "Map_first_key m = (case m of [] \<Rightarrow> None | e # _ \<Rightarrow> Some (fst e))"

definition Map_keys :: "('k, 'v) jsmap \<Rightarrow> 'k list" where
  "Map_keys m = map fst m"

definition Map_values :: "('k, 'v) jsmap \<Rightarrow> 'v list" where
  "Map_values m = map snd m"

text \<open>
  \<^verbatim>\<open>const SVG_CACHE_MAX = 300\<close>. The functions below take the bound as their first
  argument \<open>cap\<close>, so that the properties are proved for every bound; the extension runs
  them at \<open>cap = SVG_CACHE_MAX\<close>.
\<close>

definition SVG_CACHE_MAX :: nat where
  "SVG_CACHE_MAX = 300"

text \<open>
  \<^verbatim>\<open>lruGet(cache, key)\<close>: the value and the Map afterwards. A stored value is a string,
  never \<^verbatim>\<open>undefined\<close>, so the test \<^verbatim>\<open>v === undefined\<close> is the test for a miss.
\<close>

definition lruGet :: "(string, string) jsmap \<Rightarrow> string \<Rightarrow> string option \<times> (string, string) jsmap" where
  "lruGet cache key =
     (case Map_get cache key of
        None \<Rightarrow> (None, cache)
      | Some v \<Rightarrow> (Some v, Map_set (Map_delete cache key) key v))"

text \<open>
  \<^verbatim>\<open>lruSet(cache, key, val)\<close>. Its last statement, the eviction, is \<open>evictOldest\<close>: the
  test \<^verbatim>\<open>if (oldestKey)\<close> is JavaScript truthiness of a \<^verbatim>\<open>string | undefined\<close>, which
  holds when the key is defined and is not the empty string.
\<close>

definition evictOldest :: "nat \<Rightarrow> (string, string) jsmap \<Rightarrow> (string, string) jsmap" where
  "evictOldest cap cache =
     (if Map_size cache > cap then
        (case Map_first_key cache of
           None \<Rightarrow> cache
         | Some oldestKey \<Rightarrow> if oldestKey \<noteq> [] then Map_delete cache oldestKey else cache)
      else cache)"

definition lruSet :: "nat \<Rightarrow> (string, string) jsmap \<Rightarrow> string \<Rightarrow> string \<Rightarrow> (string, string) jsmap" where
  "lruSet cap cache key val =
     (let c1 = (if Map_has cache key then Map_delete cache key else cache);
          c2 = Map_set c1 key val
      in evictOldest cap c2)"

text \<open>
  The Map after each of the three statements of \<^verbatim>\<open>lruSet\<close> (the conditional delete, the
  set, the conditional eviction), for the claims about its intermediate states.
\<close>

definition lruSet_trace :: "nat \<Rightarrow> (string, string) jsmap \<Rightarrow> string \<Rightarrow> string \<Rightarrow> (string, string) jsmap list" where
  "lruSet_trace cap cache key val =
     (let c1 = (if Map_has cache key then Map_delete cache key else cache);
          c2 = Map_set c1 key val;
          c3 = evictOldest cap c2
      in [c1, c2, c3])"

subsection \<open>The host's file system and \<^verbatim>\<open>getSvgDataUrl\<close>\<close>

text \<open>
  What Node's \<^verbatim>\<open>fs\<close> throws is an error value. The environment of a call is the
  extension's install location, the answers of \<^verbatim>\<open>fs.readFileSync\<close> and
  \<^verbatim>\<open>fs.readdirSync\<close>, and the base64 encoder of \<^verbatim>\<open>Buffer\<close> (library code, taken
  as given).
\<close>

datatype fs_error = ENOENT | EACCES | EISDIR | ENOTDIR | EIO

record env =
  extensionUriGlobal :: string
  readFileSync :: "string \<Rightarrow> fs_error + string"
  readdirSync :: "string \<Rightarrow> fs_error + string list"
  base64 :: "string \<Rightarrow> string"

text \<open>\<^verbatim>\<open>vscode.Uri.joinPath(extensionUriGlobal, "media", "icons")\<close> and its \<^verbatim>\<open>fsPath\<close>.\<close>

definition iconsDirPath :: "env \<Rightarrow> string" where
  "iconsDirPath e = extensionUriGlobal e @ ''/media/icons''"

definition iconFsPath :: "env \<Rightarrow> string \<Rightarrow> string" where
  "iconFsPath e file = iconsDirPath e @ ''/'' @ file"

text \<open>
  \<^verbatim>\<open>getSvgDataUrl(iconName)\<close> on the cache \<^verbatim>\<open>svgDataUrlCache\<close>: the result (the thrown
  read error, or the data URL) and the cache afterwards. \<^verbatim>\<open>if (cached)\<close> is
  truthiness again: an empty cached string counts as a miss, after \<^verbatim>\<open>lruGet\<close> has
  already refreshed its recency.
\<close>

definition getSvgDataUrl ::
  "nat \<Rightarrow> env \<Rightarrow> (string, string) jsmap \<Rightarrow> string \<Rightarrow> (fs_error + string) \<times> (string, string) jsmap" where
  "getSvgDataUrl cap e cache iconName =
     (case lruGet cache iconName of (cached, cache1) \<Rightarrow>
        (case (if cached = Some [] then None else cached) of
           Some v \<Rightarrow> (Inr v, cache1)
         | None \<Rightarrow>
            (case readFileSync e (iconFsPath e (iconName @ ''.svg'')) of
               Inl err \<Rightarrow> (Inl err, cache1)
             | Inr svgBuf \<Rightarrow>
                 (let dataUrl = ''data:image/svg+xml;base64,'' @ base64 e svgBuf
                  in (Inr dataUrl, lruSet cap cache1 iconName dataUrl)))))"

text \<open>
  A sequence of calls, each in the file system of its moment. The log pairs each requested
  name with the outcome of its call.
\<close>

fun getSvgDataUrl_seq ::
  "nat \<Rightarrow> (string, string) jsmap \<Rightarrow> (env \<times> string) list
     \<Rightarrow> (string \<times> (fs_error + string)) list \<times> (string, string) jsmap" where
  "getSvgDataUrl_seq cap cache [] = ([], cache)"
| "getSvgDataUrl_seq cap cache ((e, iconName) # reqs) =
     (case getSvgDataUrl cap e cache iconName of (res, cache1) \<Rightarrow>
        (case getSvgDataUrl_seq cap cache1 reqs of (log, cache2) \<Rightarrow>
           ((iconName, res) # log, cache2)))"

text \<open>
  The accesses of a log are the names of the calls that returned a payload (cache hits and
  inserts, in order); a call whose read failed touched nothing.
\<close>

definition accesses :: "(string \<times> (fs_error + string)) list \<Rightarrow> string list" where
  "accesses log = map fst (filter (\<lambda>p. \<not> isl (snd p)) log)"

text \<open>
  From the spec's words: the \<open>C\<close> most recently accessed distinct identifiers of an access
  history, most recent first. \<open>remdups\<close> keeps the last occurrence of each name.
\<close>

definition most_recent :: "nat \<Rightarrow> string list \<Rightarrow> string list" where
  "most_recent C hist = take C (rev (remdups hist))"

text \<open>
  From the spec's words: \<open>k\<close> is the least recently accessed of the keys \<open>ks\<close> in the
  history \<open>hist\<close> when every other key of \<open>ks\<close> was accessed after the last access of \<open>k\<close>.
\<close>

definition least_recent :: "string \<Rightarrow> string list \<Rightarrow> string list \<Rightarrow> bool" where
  "least_recent k ks hist =
     (k \<in> set ks \<and>
      list_ex (\<lambda>i. hist ! i = k \<and> k \<notin> set (drop (Suc i) hist) \<and>
                    list_all (\<lambda>k'. k' = k \<or> k' \<in> set (drop (Suc i) hist)) ks)
        [0..<length hist])"

text \<open>
  The state invariant of the image cache at bound \<open>cap\<close>: the Map's unique keys, no empty
  identifier and no empty payload stored, and at most \<open>cap\<close> entries.
\<close>

definition cache_inv :: "nat \<Rightarrow> (string, string) jsmap \<Rightarrow> bool" where
  "cache_inv cap c =
     (distinct (map fst c) \<and> [] \<notin> set (map fst c) \<and> [] \<notin> set (map snd c) \<and> length c \<le> cap)"

text \<open>Two file systems for the examples: every read succeeds, every read fails.\<close>

definition readable_env :: env where
  "readable_env =
     \<lparr>extensionUriGlobal = ''/ext'', readFileSync = (\<lambda>p. Inr ''<svg/>''),
      readdirSync = (\<lambda>p. Inr [''x.svg'', ''search.svg'']), base64 = (\<lambda>b. b)\<rparr>"

definition unreadable_env :: env where
  "unreadable_env =
     \<lparr>extensionUriGlobal = ''/ext'', readFileSync = (\<lambda>p. Inl ENOENT),
      readdirSync = (\<lambda>p. Inl ENOENT), base64 = (\<lambda>b. b)\<rparr>"

section \<open>The token scanner\<close>

text \<open>
  A line of text is a \<open>string\<close>; an index counts its elements, as \<^verbatim>\<open>match.index\<close>
  counts the code units of a JavaScript string. The regular expression is
  \<^verbatim>\<open>/ti ti-([a-z0-9-]+)/g\<close>: the literal \<^verbatim>\<open>ti ti-\<close> followed by the longest non-empty
  run of characters of the class (the quantifier is greedy and nothing follows it, so
  there is no backtracking).
\<close>

definition isIconChar :: "char \<Rightarrow> bool" where
  "isIconChar c =
     ((97 \<le> (of_char c :: nat) \<and> (of_char c :: nat) \<le> 122) \<or>
      (48 \<le> (of_char c :: nat) \<and> (of_char c :: nat) \<le> 57) \<or>
      (of_char c :: nat) = 45)"

text \<open>The pattern anchored at the start of \<open>s\<close>: the capture group \<^verbatim>\<open>match[1]\<close>, if it matches.\<close>

definition matchHere :: "string \<Rightarrow> string option" where
  "matchHere s =
     (if take 6 s = ''ti ti-'' \<and> takeWhile isIconChar (drop 6 s) \<noteq> []
      then Some (takeWhile isIconChar (drop 6 s)) else None)"

text \<open>
  The loop \<^verbatim>\<open>while ((match = regex.exec(text)))\<close> on one line. \<open>s\<close> is the text from
  \<^verbatim>\<open>lastIndex\<close> on and \<open>i\<close> is \<^verbatim>\<open>lastIndex\<close>: \<^verbatim>\<open>exec\<close> tries the pattern at
  \<^verbatim>\<open>lastIndex\<close>, then one position further, and so on; a match is reported with its
  index and its capture group and moves \<^verbatim>\<open>lastIndex\<close> to the end of the match; when the
  text is exhausted \<^verbatim>\<open>exec\<close> returns null (and resets \<^verbatim>\<open>lastIndex\<close> to 0 for the
  next line). A match is never empty, so the loop ends.
\<close>

function regex_matches :: "nat \<Rightarrow> string \<Rightarrow> (nat \<times> string) list" where
  "regex_matches i s =
     (if s = [] then []
      else (case matchHere s of
              Some iconName \<Rightarrow>
                (i, iconName) # regex_matches (i + (6 + length iconName)) (drop (6 + length iconName) s)
            | None \<Rightarrow> regex_matches (Suc i) (tl s)))"
  by pat_completeness auto
termination
  by (relation "measure (\<lambda>(i, s). length s)") auto

declare regex_matches.simps [simp del]

record Position =
  line :: nat
  character :: nat

record Range =
  range_start :: Position
  range_end :: Position

text \<open>
  The body of the loop: the span of a match on line \<open>ln\<close>, from \<^verbatim>\<open>match.index\<close> to
  \<^verbatim>\<open>match.index + match[0].length\<close>, with the icon name it is filed under.
\<close>

definition matchSpan :: "nat \<Rightarrow> nat \<times> string \<Rightarrow> string \<times> Range" where
  "matchSpan ln m =
     (snd m,
      \<lparr>range_start = \<lparr>line = ln, character = fst m\<rparr>,
       range_end = \<lparr>line = ln, character = fst m + length (''ti ti-'' @ snd m)\<rparr>\<rparr>)"

definition lineMatches :: "nat \<Rightarrow> string \<Rightarrow> (string \<times> Range) list" where
  "lineMatches ln text = map (matchSpan ln) (regex_matches 0 text)"

text \<open>The text a span covers on its line.\<close>

definition covered :: "string \<Rightarrow> Range \<Rightarrow> string" where
  "covered text r =
     take (character (range_end r) - character (range_start r)) (drop (character (range_start r)) text)"

record TextDocument =
  languageId :: string
  doc_lines :: "string list"

text \<open>The loop over the lines \<open>0 .. lineCount - 1\<close>: every match of the document, in order.\<close>

definition allMatches :: "TextDocument \<Rightarrow> (string \<times> Range) list" where
  "allMatches doc =
     concat (map (\<lambda>ln. lineMatches ln (doc_lines doc ! ln)) [0..<length (doc_lines doc)])"

text \<open>
  \<^verbatim>\<open>rangesByIcon\<close>, a Map from icon name to the array of its ranges: a name seen for the
  first time is entered with an empty array, then the range is pushed on the name's array.
  The array is there after the \<^verbatim>\<open>set\<close>, so the \<open>None\<close> branch is never taken.
\<close>

definition pushRange :: "(string, Range list) jsmap \<Rightarrow> string \<times> Range \<Rightarrow> (string, Range list) jsmap" where
  "pushRange m p =
     (let m1 = (if \<not> Map_has m (fst p) then Map_set m (fst p) [] else m)
      in (case Map_get m1 (fst p) of
            Some ranges \<Rightarrow> Map_set m1 (fst p) (ranges @ [snd p])
          | None \<Rightarrow> m1))"

definition rangesByIcon :: "TextDocument \<Rightarrow> (string, Range list) jsmap" where
  "rangesByIcon doc = foldl pushRange [] (allMatches doc)"

section \<open>The decoration registry and the decoration updater\<close>

text \<open>
  A decoration type is an object the host creates; \<open>deco_key\<close> is its identity, which the
  host draws from a counter, and the gutter icon path is the one option that varies (the
  other style options are constants). The extension's state is the Map
  \<^verbatim>\<open>decorationCache\<close>; \<open>created\<close> is the host's counter.
\<close>

record DecorationType =
  deco_key :: nat
  gutterIconPath :: string

record ext_state =
  decorationCache :: "(string, DecorationType) jsmap"
  created :: nat

definition initial_state :: ext_state where
  "initial_state = \<lparr>decorationCache = [], created = 0\<rparr>"

text \<open>\<^verbatim>\<open>getDecorationForIcon(name)\<close>. An object is truthy, so \<^verbatim>\<open>if (cached)\<close> tests presence.\<close>

definition getDecorationForIcon :: "env \<Rightarrow> ext_state \<Rightarrow> string \<Rightarrow> DecorationType \<times> ext_state" where
  "getDecorationForIcon e st iconName =
     (case Map_get (decorationCache st) iconName of
        Some cached \<Rightarrow> (cached, st)
      | None \<Rightarrow>
          (let iconUri = iconFsPath e (iconName @ ''.svg'');
               deco = \<lparr>deco_key = created st, gutterIconPath = iconUri\<rparr>
           in (deco, \<lparr>decorationCache = Map_set (decorationCache st) iconName deco,
                      created = Suc (created st)\<rparr>)))"

text \<open>A sequence of calls: the handles returned, in order, and the state afterwards.\<close>

fun getDecorationForIcon_seq :: "env \<Rightarrow> ext_state \<Rightarrow> string list \<Rightarrow> DecorationType list \<times> ext_state" where
  "getDecorationForIcon_seq e st [] = ([], st)"
| "getDecorationForIcon_seq e st (iconName # rest) =
     (case getDecorationForIcon e st iconName of (deco, st1) \<Rightarrow>
        (case getDecorationForIcon_seq e st1 rest of (decos, st2) \<Rightarrow> (deco # decos, st2)))"

text \<open>
  An editor shows, for each decoration type, the ranges of the last \<^verbatim>\<open>setDecorations\<close>
  call for it: the call replaces what was shown.
\<close>

record TextEditor =
  document :: TextDocument
  rendered :: "DecorationType \<Rightarrow> Range list"

definition setDecorations :: "TextEditor \<Rightarrow> DecorationType \<times> Range list \<Rightarrow> TextEditor" where
  "setDecorations editor call = editor\<lparr>rendered := (rendered editor)(fst call := snd call)\<rparr>"

definition allowed :: "string list" where
  "allowed = [''html'', ''svelte'', ''javascriptreact'', ''typescriptreact'']"

text \<open>The loop \<^verbatim>\<open>for (const deco of decorationCache.values()) editor.setDecorations(deco, [])\<close>.\<close>

definition clearCalls :: "ext_state \<Rightarrow> (DecorationType \<times> Range list) list" where
  "clearCalls st = map (\<lambda>deco. (deco, [])) (Map_values (decorationCache st))"

text \<open>The loop over \<^verbatim>\<open>rangesByIcon.entries()\<close>: the calls it makes and the state afterwards.\<close>

fun applyRanges ::
  "env \<Rightarrow> ext_state \<Rightarrow> (string, Range list) jsmap \<Rightarrow> (DecorationType \<times> Range list) list \<times> ext_state" where
  "applyRanges e st [] = ([], st)"
| "applyRanges e st ((iconName, ranges) # rest) =
     (case getDecorationForIcon e st iconName of (deco, st1) \<Rightarrow>
        (case applyRanges e st1 rest of (calls, st2) \<Rightarrow> ((deco, ranges) # calls, st2)))"

text \<open>
  \<^verbatim>\<open>updateDecorations(editor)\<close>, first as the sequence of \<^verbatim>\<open>setDecorations\<close> calls it
  makes on a document, then as the effect of these calls on the editor.
\<close>

definition updateDecorations_calls ::
  "env \<Rightarrow> ext_state \<Rightarrow> TextDocument \<Rightarrow> (DecorationType \<times> Range list) list \<times> ext_state" where
  "updateDecorations_calls e st doc =
     (if languageId doc \<notin> set allowed then (clearCalls st, st)
      else (case applyRanges e st (rangesByIcon doc) of (calls, st') \<Rightarrow> (clearCalls st @ calls, st')))"

definition updateDecorations :: "env \<Rightarrow> ext_state \<Rightarrow> TextEditor \<Rightarrow> ext_state \<times> TextEditor" where
  "updateDecorations e st editor =
     (case updateDecorations_calls e st (document editor) of
        (calls, st') \<Rightarrow> (st', foldl setDecorations editor calls))"

section \<open>The icon catalog and the suggestion provider\<close>

definition endsWith :: "string \<Rightarrow> string \<Rightarrow> bool" where
  "endsWith s suffix = (length suffix \<le> length s \<and> drop (length s - length suffix) s = suffix)"

definition str_includes :: "string \<Rightarrow> string \<Rightarrow> bool" where
  "str_includes s sub = list_ex (\<lambda>i. take (length sub) (drop i s) = sub) [0..<Suc (length s)]"

record IconFile =
  name :: string
  uri :: string

text \<open>
  \<^verbatim>\<open>loadIconFiles()\<close> on the memo \<^verbatim>\<open>iconFilesCache\<close> (null or an array; an array is
  truthy, also when empty). \<^verbatim>\<open>path.basename(file, ".svg")\<close> of a directory entry that
  ends in \<^verbatim>\<open>.svg\<close> is the entry without its last four characters.
\<close>

definition loadIconFiles ::
  "env \<Rightarrow> IconFile list option \<Rightarrow> (fs_error + IconFile list) \<times> IconFile list option" where
  "loadIconFiles e iconFilesCache =
     (case iconFilesCache of
        Some files \<Rightarrow> (Inr files, iconFilesCache)
      | None \<Rightarrow>
          (case readdirSync e (iconsDirPath e) of
             Inl err \<Rightarrow> (Inl err, None)
           | Inr entries \<Rightarrow>
               (let files = map (\<lambda>file. \<lparr>name = take (length file - 4) file, uri = iconFsPath e file\<rparr>)
                              (filter (\<lambda>f. endsWith f ''.svg'') entries)
                in (Inr files, Some files))))"

text \<open>
  The documentation of an item is a Markdown text. It is kept as the list of the UTF-16
  code units of the JavaScript string, since the placeholder text holds a code unit above
  255; \<open>codeUnits\<close> gives the code units of a text of 8-bit characters.
\<close>

definition codeUnits :: "string \<Rightarrow> nat list" where
  "codeUnits s = map of_char s"

record CompletionItem =
  label :: string
  insertText :: string
  detail :: string
  documentation :: "nat list"

record ItemMeta =
  iconName :: string
  className :: string

definition newItem :: "IconFile \<Rightarrow> CompletionItem \<times> ItemMeta" where
  "newItem icon =
     (\<lparr>label = ''ti-'' @ name icon, insertText = ''ti-'' @ name icon, detail = name icon,
       documentation = codeUnits ''Hover to preview icon'' @ [0xE2, 0x20AC, 0xA6]\<rparr>,
      \<lparr>iconName = name icon, className = ''ti-'' @ name icon\<rparr>)"

text \<open>
  \<^verbatim>\<open>provideCompletionItems(document, position)\<close>: \<open>lineText\<close> is the text of the cursor's
  line and \<open>wordRange\<close> is what the host's \<^verbatim>\<open>getWordRangeAtPosition\<close> answers for the
  cursor and the pattern \<^verbatim>\<open>/ti[-\w]*/\<close>. The result is the thrown error, or nothing
  (\<^verbatim>\<open>undefined\<close>), or the items, each with the entry \<^verbatim>\<open>completionItemMeta\<close> keeps for it.
\<close>

definition provideCompletionItems ::
  "env \<Rightarrow> IconFile list option \<Rightarrow> string \<Rightarrow> (nat \<times> nat) option
     \<Rightarrow> (fs_error + (CompletionItem \<times> ItemMeta) list option) \<times> IconFile list option" where
  "provideCompletionItems e iconFilesCache lineText wordRange =
     (if \<not> str_includes lineText ''ti '' then (Inr None, iconFilesCache)
      else if wordRange = None then (Inr None, iconFilesCache)
      else (case loadIconFiles e iconFilesCache of
              (Inl err, cache') \<Rightarrow> (Inl err, cache')
            | (Inr icons, cache') \<Rightarrow> (Inr (Some (map newItem icons)), cache')))"

text \<open>
  \<^verbatim>\<open>resolveCompletionItem(item)\<close>: \<open>data\<close> is the entry of \<^verbatim>\<open>completionItemMeta\<close> for the
  item, if any. An empty icon name or class name is falsy, and the item is returned as it
  is, before the image cache is touched. The \<^verbatim>\<open>try\<close> block catches the read error.
\<close>

definition previewImages :: "string \<Rightarrow> string" where
  "previewImages dataUrl =
     concat (map (\<lambda>sz. ''<img src='' @ [CHR 0x22] @ dataUrl @ [CHR 0x22] @ '' width='' @ [CHR 0x22] @ sz @
                        [CHR 0x22] @ '' height='' @ [CHR 0x22] @ sz @ [CHR 0x22] @ '' /> '')
                 [''16'', ''24'', ''32'', ''48'', ''64'']) @
     ''<img src='' @ [CHR 0x22] @ dataUrl @ [CHR 0x22] @ '' width='' @ [CHR 0x22] @ ''96'' @
       [CHR 0x22] @ '' height='' @ [CHR 0x22] @ ''96'' @ [CHR 0x22] @ '' />'' @ [CHR 0x0A, CHR 0x0A]"

definition codeblock :: "string \<Rightarrow> string" where
  "codeblock cls =
     [CHR 0x0A] @ ''```html'' @ [CHR 0x0A] @ ''<i class='' @ [CHR 0x22] @ cls @ [CHR 0x22] @ ''></i>'' @
     [CHR 0x0A] @ ''```'' @ [CHR 0x0A]"

definition resolveCompletionItem ::
  "nat \<Rightarrow> env \<Rightarrow> (string, string) jsmap \<Rightarrow> CompletionItem \<Rightarrow> ItemMeta option
     \<Rightarrow> CompletionItem \<times> (string, string) jsmap" where
  "resolveCompletionItem cap e cache item data =
     (case data of
        None \<Rightarrow> (item, cache)
      | Some d \<Rightarrow>
          if iconName d = [] \<or> className d = [] then (item, cache)
          else (case getSvgDataUrl cap e cache (iconName d) of
                  (Inr dataUrl, cache') \<Rightarrow>
                    (item\<lparr>documentation := codeUnits (previewImages dataUrl @ codeblock (className d))\<rparr>,
                     cache')
                | (Inl err, cache') \<Rightarrow>
                    (item\<lparr>documentation := codeUnits (''(Failed to read icon: '' @ iconName d @ '')'' @
                        [CHR 0x0A, CHR 0x0A] @ codeblock (className d))\<rparr>, cache')))"

text \<open>
  The call of \<^verbatim>\<open>getSvgDataUrl\<close> that \<^verbatim>\<open>resolveCompletionItem\<close> makes for an item's entry:
  none when the entry is missing or its icon name or class name is empty, otherwise the
  call for the icon name.
\<close>

definition svgRequest :: "ItemMeta option \<Rightarrow> string option" where
  "svgRequest data =
     (case data of
        None \<Rightarrow> None
      | Some d \<Rightarrow> if iconName d = [] \<or> className d = [] then None else Some (iconName d))"

text \<open>
  A sequence of \<^verbatim>\<open>resolveCompletionItem\<close> requests, each in the file system of its moment:
  every operation the extension performs on the image cache is one of these. The log
  pairs the icon name of each \<^verbatim>\<open>getSvgDataUrl\<close> call that was made with the outcome of
  the call; the cache is the one the requests leave.
\<close>

fun resolveCompletionItem_seq ::
  "nat \<Rightarrow> (string, string) jsmap \<Rightarrow> (env \<times> CompletionItem \<times> ItemMeta option) list
     \<Rightarrow> (string \<times> (fs_error + string)) list \<times> (string, string) jsmap" where
  "resolveCompletionItem_seq cap cache [] = ([], cache)"
| "resolveCompletionItem_seq cap cache ((e, item, data) # reqs) =
     (case resolveCompletionItem cap e cache item data of (item', cache1) \<Rightarrow>
        (case resolveCompletionItem_seq cap cache1 reqs of (log, cache2) \<Rightarrow>
           ((case svgRequest data of
               None \<Rightarrow> []
             | Some nm \<Rightarrow> [(nm, fst (getSvgDataUrl cap e cache nm))]) @ log, cache2)))"

text \<open>The \<^verbatim>\<open>getSvgDataUrl\<close> calls that a sequence of requests makes, in order.\<close>

fun svgCalls :: "(env \<times> CompletionItem \<times> ItemMeta option) list \<Rightarrow> (env \<times> string) list" where
  "svgCalls [] = []"
| "svgCalls ((e, item, data) # reqs) =
     (case svgRequest data of None \<Rightarrow> svgCalls reqs | Some nm \<Rightarrow> (e, nm) # svgCalls reqs)"

text \<open>
  The request the host sends for the suggestion of a catalog entry, in the file system
  where every read succeeds: the item and the entry that \<^verbatim>\<open>provideCompletionItems\<close> made
  for the directory entry \<open>file\<close>.
\<close>

definition resolve_request :: "string \<Rightarrow> env \<times> CompletionItem \<times> ItemMeta option" where
  "resolve_request file =
     (readable_env,
      fst (newItem \<lparr>name = take (length file - 4) file, uri = iconFsPath readable_env file\<rparr>),
      Some (snd (newItem \<lparr>name = take (length file - 4) file, uri = iconFsPath readable_env file\<rparr>)))"

text \<open>Documents for the examples.\<close>

definition search_line :: string where
  "search_line = ''<i class='' @ [CHR 0x22] @ ''ti ti-search text-xl'' @ [CHR 0x22] @ ''></i>''"

definition search_off_line :: string where
  "search_off_line = ''<i class='' @ [CHR 0x22] @ ''ti ti-search-off'' @ [CHR 0x22] @ ''></i>''"

definition html_doc :: TextDocument where
  "html_doc = \<lparr>languageId = ''html'', doc_lines = [search_line, ''ti ti-a ti ti-b'', ''ti ti-a'']\<rparr>"

definition python_doc :: TextDocument where
  "python_doc = \<lparr>languageId = ''python'', doc_lines = [''# ti ti-search'']\<rparr>"

definition html_editor :: TextEditor where
  "html_editor = \<lparr>document = html_doc, rendered = (\<lambda>deco. [])\<rparr>"

definition python_editor :: TextEditor where
  "python_editor =
     \<lparr>document = python_doc,
      rendered = (\<lambda>deco. [\<lparr>range_start = \<lparr>line = 0, character = 2\<rparr>,
                             range_end = \<lparr>line = 0, character = 14\<rparr>\<rparr>])\<rparr>"

definition x_state :: ext_state where
  "x_state =
     \<lparr>decorationCache = [(''x'', \<lparr>deco_key = 0, gutterIconPath = ''/ext/media/icons/x.svg''\<rparr>)],
      created = 1\<rparr>"

text \<open>
  For the examples at the bound the extension runs with: \<open>n\<close> distinct non-empty icon
  names (\<open>a\<close>, \<open>aa\<close>, \<open>aaa\<close>, ...), and a cache that holds one payload for each of
  the first \<open>SVG_CACHE_MAX\<close> of them.
\<close>

definition many_names :: "nat \<Rightarrow> string list" where
  "many_names n = map (\<lambda>i. replicate (Suc i) CHR ''a'') [0..<n]"

definition full_cache :: "(string, string) jsmap" where
  "full_cache = map (\<lambda>nm. (nm, ''data:'')) (many_names SVG_CACHE_MAX)"

section \<open>Properties of the image cache\<close>

lemma Map_delete_keys: "map fst (Map_delete m k) = filter (\<lambda>x. x \<noteq> k) (map fst m)"
  by (induction m) (auto simp: Map_delete_def)

lemma Map_delete_absent: "\<not> Map_has m k \<Longrightarrow> Map_delete m k = m"
  by (induction m) (auto simp: Map_delete_def Map_has_def)

lemma Map_set_absent: "\<not> Map_has m k \<Longrightarrow> Map_set m k v = m @ [(k, v)]"
  by (simp add: Map_set_def)

lemma Map_has_delete: "\<not> Map_has (Map_delete m k) k"
  by (auto simp: Map_has_def Map_delete_def)

lemma Map_delete_hd: "distinct (map fst (e # m)) \<Longrightarrow> Map_delete (e # m) (fst e) = m"
  by (simp add: Map_delete_def) (metis (mono_tags, lifting) filter_True image_eqI list.set_map)

lemma Map_get_None_iff: "Map_get m k = None \<longleftrightarrow> \<not> Map_has m k"
  by (simp add: Map_get_def Map_has_def map_of_eq_None_iff)

lemma lruGet_miss: "\<not> Map_has cache key \<Longrightarrow> lruGet cache key = (None, cache)"
  using Map_get_None_iff [of cache key] by (simp add: lruGet_def)

lemma lruGet_hit:
  "Map_get cache key = Some v \<Longrightarrow> lruGet cache key = (Some v, Map_delete cache key @ [(key, v)])"
  by (simp add: lruGet_def Map_set_absent Map_has_delete)

lemma set_Map_delete_hit:
  "distinct (map fst m) \<Longrightarrow> Map_get m k = Some v \<Longrightarrow> set (Map_delete m k @ [(k, v)]) = set m"
  unfolding Map_get_def Map_delete_def
  by (induction m) (auto split: if_splits dest: map_of_SomeD simp: rev_image_eqI)

lemma Map_get_in: "Map_get m k = Some v \<Longrightarrow> (k, v) \<in> set m"
  by (simp add: Map_get_def map_of_SomeD)

lemma evictOldest_within: "length c \<le> cap \<Longrightarrow> evictOldest cap c = c"
  by (simp add: evictOldest_def Map_size_def)

lemma evictOldest_over:
  "distinct (map fst c) \<Longrightarrow> cap < length c \<Longrightarrow> fst (hd c) \<noteq> [] \<Longrightarrow> evictOldest cap c = tl c"
  by (cases c) (auto simp: evictOldest_def Map_size_def Map_first_key_def Map_delete_hd simp del: distinct.simps)

lemma lruSet_present:
  "distinct (map fst cache) \<Longrightarrow> length cache \<le> cap \<Longrightarrow> Map_has cache key \<Longrightarrow>
   lruSet cap cache key val = Map_delete cache key @ [(key, val)]"
proof -
  assume d: "distinct (map fst cache)" and l: "length cache \<le> cap" and h: "Map_has cache key"
  have "length (Map_delete cache key) < length cache"
    using h unfolding Map_delete_def Map_has_def
    by (metis (mono_tags, lifting) length_filter_less list.set_map image_iff)
  then have "length (Map_delete cache key @ [(key, val)]) \<le> cap" using l by simp
  then show ?thesis
    using h by (simp add: lruSet_def Map_set_absent Map_has_delete evictOldest_within)
qed

lemma lruSet_absent_room:
  "\<not> Map_has cache key \<Longrightarrow> length cache < cap \<Longrightarrow> lruSet cap cache key val = cache @ [(key, val)]"
  by (simp add: lruSet_def Map_set_absent evictOldest_within)

lemma lruSet_absent_full:
  "distinct (map fst cache) \<Longrightarrow> \<not> Map_has cache key \<Longrightarrow> cap \<le> length cache \<Longrightarrow>
   fst (hd (cache @ [(key, val)])) \<noteq> [] \<Longrightarrow>
   lruSet cap cache key val = tl (cache @ [(key, val)])"
  by (simp add: lruSet_def Map_set_absent evictOldest_over Map_has_def)


lemma length_Map_delete_present:
  "distinct (map fst m) \<Longrightarrow> Map_has m k \<Longrightarrow> Suc (length (Map_delete m k)) = length m"
  unfolding Map_delete_def Map_has_def
proof (induction m)
  case Nil
  then show ?case by simp
next
  case (Cons a m)
  show ?case
  proof (cases "fst a = k")
    case True
    with Cons.prems have "k \<notin> fst ` set m" by auto
    then have "filter (\<lambda>e. fst e \<noteq> k) m = m" by (auto intro: filter_True)
    with True show ?thesis by simp
  next
    case False
    with Cons show ?thesis by auto
  qed
qed

lemma rev_tl_snoc_take: "length K = cap \<Longrightarrow> rev (tl (K @ [n])) = take cap (n # rev K)"
  by (cases K) (auto)

lemma getSvgDataUrl_step:
  assumes inv: "cache_inv cap c" and n: "nm \<noteq> []"
    and r: "getSvgDataUrl cap e c nm = (res, c')"
  shows "cache_inv cap c' \<and> (isl res \<longrightarrow> c' = c) \<and>
         (\<not> isl res \<longrightarrow> rev (map fst c') = take cap (nm # filter (\<lambda>x. x \<noteq> nm) (rev (map fst c))))"
proof (cases "Map_get c nm")
  case None
  then have nh: "\<not> Map_has c nm" by (simp add: Map_get_None_iff)
  then have nk: "nm \<notin> set (map fst c)" by (simp add: Map_has_def)
  then have fk: "filter (\<lambda>x. x \<noteq> nm) (rev (map fst c)) = rev (map fst c)"
    by (auto intro: filter_True)
  show ?thesis
  proof (cases "readFileSync e (iconFsPath e (nm @ ''.svg''))")
    case (Inl err)
    with r nh have "res = Inl err" "c' = c"
      by (simp_all add: getSvgDataUrl_def lruGet_miss)
    with inv show ?thesis by simp
  next
    case (Inr buf)
    define url where "url = ''data:image/svg+xml;base64,'' @ base64 e buf"
    have url: "url \<noteq> []" by (simp add: url_def)
    from r nh Inr have res: "res = Inr url" and c': "c' = lruSet cap c nm url"
      by (simp_all add: getSvgDataUrl_def lruGet_miss url_def Let_def)
    show ?thesis
    proof (cases "length c < cap")
      case True
      then have "c' = c @ [(nm, url)]" using c' nh by (simp add: lruSet_absent_room)
      with inv nk n url True res fk show ?thesis
        by (simp add: cache_inv_def)
    next
      case False
      with inv have len: "length c = cap" by (simp add: cache_inv_def)
      have hd: "fst (hd (c @ [(nm, url)])) \<noteq> []"
        using inv n by (cases c) (auto simp: cache_inv_def)
      have c'': "c' = tl (c @ [(nm, url)])"
        using c' nh inv len hd by (simp add: lruSet_absent_full cache_inv_def)
      have keys: "map fst c' = tl (map fst c @ [nm])"
        using c'' by (simp add: map_tl)
      have d: "distinct (map fst c @ [nm])" using inv nk by (simp add: cache_inv_def)
      have "cache_inv cap c'"
        unfolding cache_inv_def
      proof (intro conjI)
        show "distinct (map fst c')" using d keys by (simp add: distinct_tl)
        show "[] \<notin> set (map fst c')"
          using inv n c'' by (cases c) (auto simp: cache_inv_def)
        show "[] \<notin> set (map snd c')"
          using inv url c'' by (cases c) (auto simp: cache_inv_def)
        show "length c' \<le> cap" using c'' len by simp
      qed
      moreover have "rev (map fst c') = take cap (nm # rev (map fst c))"
        using keys len rev_tl_snoc_take [of "map fst c" cap nm] by simp
      ultimately show ?thesis using res fk by simp
    qed
  qed
next
  case (Some v)
  then have "(nm, v) \<in> set c" by (rule Map_get_in)
  then have vin: "v \<in> set (map snd c)" and kin: "Map_has c nm"
    by (force simp: Map_has_def)+
  with inv have v: "v \<noteq> []" unfolding cache_inv_def by metis
  from r Some v have res: "res = Inr v" and c': "c' = Map_delete c nm @ [(nm, v)]"
    by (simp_all add: getSvgDataUrl_def lruGet_hit)
  have len: "Suc (length (Map_delete c nm)) = length c"
    using inv kin by (simp add: length_Map_delete_present cache_inv_def)
  have keys: "map fst c' = filter (\<lambda>x. x \<noteq> nm) (map fst c) @ [nm]"
    using c' by (simp add: Map_delete_keys)
  have sub: "set (Map_delete c nm) \<subseteq> set c" by (auto simp: Map_delete_def)
  have "cache_inv cap c'"
    unfolding cache_inv_def
  proof (intro conjI)
    show "distinct (map fst c')" using keys inv by (simp add: cache_inv_def)
    show "[] \<notin> set (map fst c')" using keys inv n by (auto simp: cache_inv_def)
    show "[] \<notin> set (map snd c')" using c' sub inv v by (auto simp: cache_inv_def)
    show "length c' \<le> cap" using c' len inv by (simp add: cache_inv_def)
  qed
  moreover have "length (nm # filter (\<lambda>x. x \<noteq> nm) (rev (map fst c))) \<le> cap"
  proof -
    have "length (filter (\<lambda>x. x \<noteq> nm) (rev (map fst c))) = length (Map_delete c nm)"
      by (metis Map_delete_keys length_map length_rev rev_filter)
    with len inv show ?thesis by (simp add: cache_inv_def)
  qed
  then have "rev (map fst c') = take cap (nm # filter (\<lambda>x. x \<noteq> nm) (rev (map fst c)))"
    using keys by (simp add: rev_filter)
  ultimately show ?thesis using res by simp
qed

lemma remdups_snoc: "remdups (h @ [n]) = filter (\<lambda>x. x \<noteq> n) (remdups h) @ [n]"
  by (induction h) auto

lemma rev_remdups_snoc:
  "rev (remdups (h @ [n])) = n # filter (\<lambda>x. x \<noteq> n) (rev (remdups h))"
  by (simp add: remdups_snoc rev_filter)

lemma take_filter_take:
  "distinct T \<Longrightarrow> take m (filter (\<lambda>x. x \<noteq> n) (take (Suc m) T)) = take m (filter (\<lambda>x. x \<noteq> n) T)"
proof (induction T arbitrary: m)
  case Nil
  then show ?case by simp
next
  case (Cons x xs)
  show ?case
  proof (cases "x = n")
    case True
    with Cons.prems have "n \<notin> set xs" by simp
    then have "filter (\<lambda>x. x \<noteq> n) xs = xs" "filter (\<lambda>x. x \<noteq> n) (take m xs) = take m xs"
      by (auto intro!: filter_True dest: in_set_takeD)
    with True show ?thesis by simp
  next
    case False
    show ?thesis
    proof (cases m)
      case 0
      then show ?thesis by simp
    next
      case (Suc m')
      with False Cons show ?thesis by simp
    qed
  qed
qed

lemma touch_take:
  "distinct T \<Longrightarrow>
   take cap (n # filter (\<lambda>x. x \<noteq> n) (take cap T)) = take cap (n # filter (\<lambda>x. x \<noteq> n) T)"
  by (cases cap) (simp_all add: take_filter_take)

lemma getSvgDataUrl_seq_snoc:
  "getSvgDataUrl_seq cap c (reqs @ [(e, nm)]) =
     (case getSvgDataUrl_seq cap c reqs of (log0, c0) \<Rightarrow>
        (case getSvgDataUrl cap e c0 nm of (res, c1) \<Rightarrow> (log0 @ [(nm, res)], c1)))"
  by (induction reqs arbitrary: c) (auto split: prod.splits)

lemma accesses_snoc:
  "accesses (log @ [(nm, res)]) = (if isl res then accesses log else accesses log @ [nm])"
  by (simp add: accesses_def)

lemma getSvgDataUrl_seq_inv:
  assumes "\<forall>q \<in> set reqs. snd q \<noteq> []"
    and "getSvgDataUrl_seq cap [] reqs = (log, c)"
  shows "cache_inv cap c \<and> rev (map fst c) = most_recent cap (accesses log)"
  using assms
proof (induction reqs arbitrary: log c rule: rev_induct)
  case Nil
  then show ?case by (simp add: cache_inv_def most_recent_def accesses_def)
next
  case (snoc q reqs)
  obtain e nm where q: "q = (e, nm)" by (cases q)
  obtain log0 c0 where run0: "getSvgDataUrl_seq cap [] reqs = (log0, c0)" by force
  obtain res c1 where step: "getSvgDataUrl cap e c0 nm = (res, c1)" by force
  from snoc.prems(2) q run0 step have log: "log = log0 @ [(nm, res)]" and c: "c = c1"
    by (simp_all add: getSvgDataUrl_seq_snoc)
  from snoc.prems(1) q have n: "nm \<noteq> []" and rest: "\<forall>q \<in> set reqs. snd q \<noteq> []" by auto
  from snoc.IH [OF rest run0]
  have inv0: "cache_inv cap c0" and keys0: "rev (map fst c0) = most_recent cap (accesses log0)"
    by simp_all
  from getSvgDataUrl_step [OF inv0 n step]
  have inv1: "cache_inv cap c1" and fail: "isl res \<longrightarrow> c1 = c0"
    and ok: "\<not> isl res \<longrightarrow>
       rev (map fst c1) = take cap (nm # filter (\<lambda>x. x \<noteq> nm) (rev (map fst c0)))"
    by simp_all
  show ?case
  proof (cases "isl res")
    case True
    with fail keys0 inv1 log c show ?thesis by (simp add: accesses_snoc)
  next
    case False
    with ok keys0 have "rev (map fst c1) =
        take cap (nm # filter (\<lambda>x. x \<noteq> nm) (take cap (rev (remdups (accesses log0)))))"
      by (simp add: most_recent_def)
    also have "\<dots> = take cap (nm # filter (\<lambda>x. x \<noteq> nm) (rev (remdups (accesses log0))))"
      by (rule touch_take) simp
    also have "\<dots> = most_recent cap (accesses log)"
      using False log by (simp add: most_recent_def accesses_snoc rev_remdups_snoc)
    finally show ?thesis using inv1 c by simp
  qed
qed

lemma remdups_split:
  "remdups hist = A @ k # B \<Longrightarrow>
   \<exists>pre post. hist = pre @ k # post \<and> k \<notin> set post \<and> set B \<subseteq> set post"
proof (induction hist arbitrary: A)
  case Nil
  then show ?case by simp
next
  case (Cons x xs)
  show ?case
  proof (cases "x \<in> set xs")
    case True
    with Cons.prems have "remdups xs = A @ k # B" by simp
    from Cons.IH [OF this] obtain pre post where
      "xs = pre @ k # post" "k \<notin> set post" "set B \<subseteq> set post" by blast
    then have "x # xs = (x # pre) @ k # post \<and> k \<notin> set post \<and> set B \<subseteq> set post" by simp
    then show ?thesis by blast
  next
    case False
    with Cons.prems have eq: "x # remdups xs = A @ k # B" by simp
    show ?thesis
    proof (cases A)
      case Nil
      with eq have "x = k" "remdups xs = B" by simp_all
      with False have "x # xs = [] @ k # xs \<and> k \<notin> set xs \<and> set B \<subseteq> set xs"
        by (metis append_Nil set_remdups subset_refl)
      then show ?thesis by blast
    next
      case (Cons a A')
      with eq have "remdups xs = A' @ k # B" by simp
      from Cons.IH [OF this] obtain pre post where
        "xs = pre @ k # post" "k \<notin> set post" "set B \<subseteq> set post" by blast
      then have "x # xs = (x # pre) @ k # post \<and> k \<notin> set post \<and> set B \<subseteq> set post" by simp
      then show ?thesis by blast
    qed
  qed
qed

lemma least_recentI:
  assumes "hist = pre @ k # post" "k \<notin> set post" "set ks \<subseteq> insert k (set post)" "k \<in> set ks"
  shows "least_recent k ks hist"
proof -
  have "length pre < length hist" "hist ! length pre = k" "drop (Suc (length pre)) hist = post"
    using assms(1) by simp_all
  moreover have "list_all (\<lambda>k'. k' = k \<or> k' \<in> set post) ks"
    using assms(3) by (auto simp: list_all_iff)
  ultimately have "\<exists>i\<in>set [0..<length hist]. hist ! i = k \<and> k \<notin> set (drop (Suc i) hist) \<and>
      list_all (\<lambda>k'. k' = k \<or> k' \<in> set (drop (Suc i) hist)) ks"
    using assms(2) by (intro bexI [of _ "length pre"]) simp_all
  then show ?thesis
    unfolding least_recent_def list_ex_iff using assms(4) by simp
qed

lemma evicted_is_hd:
  assumes len: "length K \<le> cap"
    and K1: "K1 = take cap (nm # filter (\<lambda>x. x \<noteq> nm) (rev K))"
    and k: "k \<in> set K" "k \<notin> set K1"
  shows "K = k # tl K \<and> k \<notin> set (tl K)"
proof -
  define F where "F = filter (\<lambda>x. x \<noteq> nm) (rev K)"
  from k(1) len have cap: "0 < cap" by (cases K) auto
  then obtain m where m: "cap = Suc m" by (cases cap) auto
  have K1': "K1 = nm # take m F" using K1 m by (simp add: F_def)
  with k(2) have kn: "k \<noteq> nm" and kt: "k \<notin> set (take m F)" by auto
  from kn k(1) have kF: "k \<in> set F" by (simp add: F_def)
  have "m < length F"
  proof (rule ccontr)
    assume "\<not> m < length F"
    then have "take m F = F" by simp
    with kt kF show False by simp
  qed
  moreover have "length F \<le> length K"
    unfolding F_def using length_filter_le [of "\<lambda>x. x \<noteq> nm" "rev K"] by simp
  ultimately have lF: "length F = length K" and lK: "length K = Suc m" using len m by auto
  have FK: "F = rev K"
    unfolding F_def using lF [unfolded F_def]
    by (metis length_filter_less length_rev filter_True less_irrefl)
  have "take m (rev K) = rev (tl K)"
    using lK by (cases K) simp_all
  with kt FK have "k \<notin> set (tl K)" by simp
  moreover with k(1) have "K = k # tl K" by (cases K) auto
  ultimately show ?thesis by simp
qed

lemma getSvgDataUrl_evicts_lru:
  assumes inv0: "cache_inv cap c0"
    and keys0: "rev (map fst c0) = most_recent cap hist"
    and n: "nm \<noteq> []"
    and step: "getSvgDataUrl cap e c0 nm = (res, c1)"
    and k: "k \<in> set (map fst c0)" "k \<notin> set (map fst c1)"
  shows "least_recent k (map fst c0) hist"
proof -
  from getSvgDataUrl_step [OF inv0 n step]
  have fail: "isl res \<longrightarrow> c1 = c0"
    and ok: "\<not> isl res \<longrightarrow>
       rev (map fst c1) = take cap (nm # filter (\<lambda>x. x \<noteq> nm) (rev (map fst c0)))"
    by simp_all
  from fail k have "\<not> isl res" by auto
  with ok have K1: "rev (map fst c1) = take cap (nm # filter (\<lambda>x. x \<noteq> nm) (rev (map fst c0)))"
    by simp
  from inv0 have len: "length (map fst c0) \<le> cap" by (simp add: cache_inv_def)
  from k(2) have "k \<notin> set (rev (map fst c1))" by simp
  from evicted_is_hd [OF len K1 k(1) this]
  have K0: "map fst c0 = k # tl (map fst c0)" and knt: "k \<notin> set (tl (map fst c0))" by simp_all
  define R where "R = remdups hist"
  have "map fst c0 = rev (take cap (rev R))"
    using keys0 by (metis R_def most_recent_def rev_rev_ident)
  then have "map fst c0 = drop (length R - cap) R" by (simp add: rev_take)
  then have "R = take (length R - cap) R @ k # tl (map fst c0)"
    using K0 by (metis append_take_drop_id)
  from remdups_split [OF this [unfolded R_def]] obtain pre post where
    h: "hist = pre @ k # post" "k \<notin> set post" "set (tl (map fst c0)) \<subseteq> set post" by blast
  have "set (map fst c0) \<subseteq> insert k (set post)"
    using K0 h(3) by (metis insert_mono list.simps(15))
  from least_recentI [OF h(1,2) this k(1)] show ?thesis .
qed

text \<open>The unfolding rules that evaluate the cache operations on a concrete input.\<close>

lemmas cache_eval = getSvgDataUrl_def lruGet_def lruSet_def evictOldest_def Map_has_def Map_get_def
  Map_delete_def Map_set_def Map_size_def Map_first_key_def Map_keys_def iconFsPath_def
  iconsDirPath_def readable_env_def unreadable_env_def Let_def

text \<open>
  The empty string as the oldest key: \<^verbatim>\<open>if (oldestKey)\<close> is false for it, so nothing is
  evicted while it stays the oldest. This is what a direct call of \<^verbatim>\<open>getSvgDataUrl\<close> with
  the empty name would lead to; \<^verbatim>\<open>resolveCompletionItem\<close>, the only caller, makes no such
  call.
\<close>

lemma evictOldest_empty_key: "c \<noteq> [] \<Longrightarrow> fst (hd c) = [] \<Longrightarrow> evictOldest cap c = c"
  by (cases c) (simp_all add: evictOldest_def Map_first_key_def)

lemma getSvgDataUrl_readable_miss:
  "\<not> Map_has c nm \<Longrightarrow>
   getSvgDataUrl cap readable_env c nm =
     (Inr ''data:image/svg+xml;base64,<svg/>'',
      lruSet cap c nm ''data:image/svg+xml;base64,<svg/>'')"
  by (simp add: getSvgDataUrl_def lruGet_miss readable_env_def Let_def)

lemma empty_key_blocks_eviction:
  assumes "c \<noteq> []" and "fst (hd c) = []" and "distinct (map fst c @ names)"
  shows "snd (getSvgDataUrl_seq cap c (map (Pair readable_env) names)) =
           c @ map (\<lambda>nm. (nm, ''data:image/svg+xml;base64,<svg/>'')) names"
  using assms
proof (induction names arbitrary: c)
  case Nil
  then show ?case by simp
next
  case (Cons nm names)
  let ?c1 = "c @ [(nm, ''data:image/svg+xml;base64,<svg/>'')]"
  from Cons.prems(3) have nh: "\<not> Map_has c nm" by (auto simp: Map_has_def)
  have hd1: "fst (hd ?c1) = []" using Cons.prems(1,2) by simp
  have "lruSet cap c nm ''data:image/svg+xml;base64,<svg/>'' = ?c1"
    using nh hd1 by (simp add: lruSet_def Map_set_absent evictOldest_empty_key)
  with nh have step: "getSvgDataUrl cap readable_env c nm = (Inr ''data:image/svg+xml;base64,<svg/>'', ?c1)"
    by (simp add: getSvgDataUrl_readable_miss)
  have d1: "distinct (map fst ?c1 @ names)" using Cons.prems(3) by auto
  have ne1: "?c1 \<noteq> []" by simp
  from Cons.IH [OF ne1 hd1 d1] step show ?case
    by (simp add: split_beta)
qed

lemma distinct_many_names: "distinct (many_names n)"
  unfolding many_names_def
  by (rule distinct_map [THEN iffD2]) (auto simp: inj_on_def dest: arg_cong [where f = length])

lemma length_many_names: "length (many_names n) = n"
  by (simp add: many_names_def)

lemma empty_not_in_many_names: "[] \<notin> set (many_names n)"
  by (auto simp: many_names_def)

lemma b_not_in_many_names: "''b'' \<notin> set (many_names n)"
  by (auto simp: many_names_def)

lemma cache_overflow_at_max:
  "Map_size (snd (getSvgDataUrl_seq SVG_CACHE_MAX []
      ((readable_env, []) # map (Pair readable_env) (many_names SVG_CACHE_MAX)))) = Suc SVG_CACHE_MAX"
proof -
  have first: "getSvgDataUrl SVG_CACHE_MAX readable_env [] [] =
      (Inr ''data:image/svg+xml;base64,<svg/>'', [([], ''data:image/svg+xml;base64,<svg/>'')])"
    by (simp add: cache_eval SVG_CACHE_MAX_def)
  have "distinct (map fst [([], ''data:image/svg+xml;base64,<svg/>'')] @ many_names SVG_CACHE_MAX)"
    using distinct_many_names empty_not_in_many_names by simp
  from empty_key_blocks_eviction [OF _ _ this, of SVG_CACHE_MAX] first
  show ?thesis by (simp add: split_beta Map_size_def length_many_names)
qed

lemma full_cache_trace_sizes:
  "map Map_size (lruSet_trace SVG_CACHE_MAX full_cache ''b'' ''data:'') =
     [SVG_CACHE_MAX, Suc SVG_CACHE_MAX, SVG_CACHE_MAX]"
proof -
  have keys: "map fst full_cache = many_names SVG_CACHE_MAX"
    by (simp add: full_cache_def comp_def)
  have len: "length full_cache = SVG_CACHE_MAX"
    by (simp add: full_cache_def length_many_names)
  have nh: "\<not> Map_has full_cache ''b''"
    using b_not_in_many_names by (simp add: Map_has_def keys)
  have d: "distinct (map fst (full_cache @ [(''b'', ''data:'')]))"
    using distinct_many_names b_not_in_many_names by (simp add: keys)
  have "full_cache \<noteq> []" using len by (auto simp: SVG_CACHE_MAX_def)
  then have "fst (hd (full_cache @ [(''b'', ''data:'')])) \<in> set (map fst full_cache)"
    by (cases full_cache) simp_all
  then have h: "fst (hd (full_cache @ [(''b'', ''data:'')])) \<noteq> []"
    using empty_not_in_many_names unfolding keys by metis
  have "evictOldest SVG_CACHE_MAX (full_cache @ [(''b'', ''data:'')]) = tl (full_cache @ [(''b'', ''data:'')])"
    using d _ h by (rule evictOldest_over) (simp add: len)
  then show ?thesis
    using nh len by (simp add: lruSet_trace_def Map_set_absent Map_size_def Let_def)
qed

lemma map_of_filter_other:
  "k \<noteq> key \<Longrightarrow> map_of (filter (\<lambda>e. fst e \<noteq> key) m) k = map_of m k"
  by (induction m) auto

text \<open>
  The cache as a least-recently-used cache, for calls with non-empty identifiers. For every
  finite sequence of such \<^verbatim>\<open>getSvgDataUrl\<close> calls, started on the empty cache, whatever
  the file system answers at each call: after the last call the cache holds at most \<open>cap\<close>
  entries; its keys, newest first, are exactly the \<open>cap\<close> most recently accessed distinct
  identifiers, where an access is a call that returned a payload (a hit or an insert); and
  every key that the last call removed from the cache was the least recently accessed of
  the keys the cache held before that call.
\<close>

lemma getSvgDataUrl_seq_lru:
  assumes "\<forall>q \<in> set (reqs @ [(e, nm)]). snd q \<noteq> []"
  shows "Map_size (snd (getSvgDataUrl_seq cap [] (reqs @ [(e, nm)]))) \<le> cap \<and>
         rev (Map_keys (snd (getSvgDataUrl_seq cap [] (reqs @ [(e, nm)])))) =
           most_recent cap (accesses (fst (getSvgDataUrl_seq cap [] (reqs @ [(e, nm)])))) \<and>
         set (Map_keys (snd (getSvgDataUrl_seq cap [] (reqs @ [(e, nm)])))) =
           set (most_recent cap (accesses (fst (getSvgDataUrl_seq cap [] (reqs @ [(e, nm)]))))) \<and>
         (\<forall>k. k \<in> set (Map_keys (snd (getSvgDataUrl_seq cap [] reqs))) \<and>
              k \<notin> set (Map_keys (snd (getSvgDataUrl_seq cap [] (reqs @ [(e, nm)])))) \<longrightarrow>
              least_recent k (Map_keys (snd (getSvgDataUrl_seq cap [] reqs)))
                (accesses (fst (getSvgDataUrl_seq cap [] reqs))))"
proof -
  obtain log0 c0 where run0: "getSvgDataUrl_seq cap [] reqs = (log0, c0)" by force
  obtain res c1 where step: "getSvgDataUrl cap e c0 nm = (res, c1)" by force
  have run1: "getSvgDataUrl_seq cap [] (reqs @ [(e, nm)]) = (log0 @ [(nm, res)], c1)"
    using run0 step by (simp add: getSvgDataUrl_seq_snoc)
  from assms have n: "nm \<noteq> []" and rest: "\<forall>q \<in> set reqs. snd q \<noteq> []" by auto
  from getSvgDataUrl_seq_inv [OF rest run0]
  have inv0: "cache_inv cap c0" and keys0: "rev (map fst c0) = most_recent cap (accesses log0)"
    by simp_all
  from getSvgDataUrl_seq_inv [OF assms run1]
  have inv1: "cache_inv cap c1"
    and keys1: "rev (map fst c1) = most_recent cap (accesses (log0 @ [(nm, res)]))"
    by simp_all
  have "length c1 \<le> cap" using inv1 by (simp add: cache_inv_def)
  moreover have "set (map fst c1) = set (most_recent cap (accesses (log0 @ [(nm, res)])))"
    using keys1 by (metis set_rev)
  moreover have "\<forall>k. k \<in> set (map fst c0) \<and> k \<notin> set (map fst c1) \<longrightarrow>
      least_recent k (map fst c0) (accesses log0)"
    using getSvgDataUrl_evicts_lru [OF inv0 keys0 n step] by blast
  ultimately show ?thesis
    using keys1 by (simp add: run0 run1 Map_size_def Map_keys_def)
qed

text \<open>
  Claim C2, as the code has it. Inserting a new identifier into a full cache whose oldest
  key is not the empty string: \<^verbatim>\<open>lruSet\<close> first appends the new entry, so the Map holds
  \<open>cap + 1\<close> entries for one step, and then deletes the single oldest entry, which brings
  the size back to \<open>cap\<close>. The bound is exceeded by exactly one between the two statements,
  never by more.
\<close>

theorem lruSet_insert_then_evict:
  assumes "distinct (Map_keys cache)" and "Map_size cache = cap" and "\<not> Map_has cache key"
    and "hd (Map_keys cache @ [key]) \<noteq> []"
  shows "lruSet_trace cap cache key val = [cache, cache @ [(key, val)], tl (cache @ [(key, val)])] \<and>
         map Map_size (lruSet_trace cap cache key val) = [cap, Suc cap, cap] \<and>
         lruSet cap cache key val = last (lruSet_trace cap cache key val)"
proof -
  have d: "distinct (map fst (cache @ [(key, val)]))"
    using assms(1,3) by (simp add: Map_keys_def Map_has_def)
  have h: "fst (hd (cache @ [(key, val)])) \<noteq> []"
    using assms(4) by (cases cache) (simp_all add: Map_keys_def)
  have "evictOldest cap (cache @ [(key, val)]) = tl (cache @ [(key, val)])"
    using d h assms(2) by (intro evictOldest_over) (simp_all add: Map_size_def)
  then show ?thesis
    using assms(2,3) by (simp add: lruSet_trace_def lruSet_def Map_set_absent Map_size_def Let_def)
qed

text \<open>At bound 2, with \<open>x\<close> and \<open>search\<close> cached, inserting \<open>a\<close>.\<close>

theorem lruSet_insert_then_evict_witness:
  "lruSet_trace 2 [(''x'', ''1''), (''search'', ''2'')] ''a'' ''3'' =
     [[(''x'', ''1''), (''search'', ''2'')],
      [(''x'', ''1''), (''search'', ''2''), (''a'', ''3'')],
      [(''search'', ''2''), (''a'', ''3'')]] \<and>
   lruSet 2 [(''x'', ''1''), (''search'', ''2'')] ''a'' ''3'' = [(''search'', ''2''), (''a'', ''3'')]"
  using lruSet_insert_then_evict [of "[(''x'', ''1''), (''search'', ''2'')]" 2 "''a''" "''3''"]
  by (simp add: Map_keys_def Map_size_def Map_has_def)

text \<open>
  Claim C2 as stated (the eviction comes before the insertion, so no intermediate state is
  over the bound) fails: after the second statement of \<^verbatim>\<open>lruSet\<close> the Map holds three
  entries at bound 2, the oldest one still among them, and \<open>SVG_CACHE_MAX + 1\<close> entries when
  the cache of the extension is full.
\<close>

theorem lruSet_transient_counterexample:
  "map Map_size (lruSet_trace 2 [(''x'', ''1''), (''search'', ''2'')] ''a'' ''3'') = [2, 3, 2] \<and>
   lruSet_trace 2 [(''x'', ''1''), (''search'', ''2'')] ''a'' ''3'' ! 1 =
     [(''x'', ''1''), (''search'', ''2''), (''a'', ''3'')] \<and>
   map Map_size (lruSet_trace SVG_CACHE_MAX full_cache ''b'' ''data:'') =
     [SVG_CACHE_MAX, Suc SVG_CACHE_MAX, SVG_CACHE_MAX]"
proof -
  have "map Map_size (lruSet_trace 2 [(''x'', ''1''), (''search'', ''2'')] ''a'' ''3'') = [2, 3, 2] \<and>
   lruSet_trace 2 [(''x'', ''1''), (''search'', ''2'')] ''a'' ''3'' ! 1 =
     [(''x'', ''1''), (''search'', ''2''), (''a'', ''3'')]"
    by (simp add: lruSet_trace_def cache_eval)
  with full_cache_trace_sizes show ?thesis by blast
qed

text \<open>
  Claim C3. For an identifier that is not in the cache and whose asset file cannot be read,
  \<^verbatim>\<open>getSvgDataUrl\<close> fails with the read error and leaves the cache exactly as it was:
  same entries, same order.
\<close>

theorem getSvgDataUrl_read_failure:
  assumes "\<not> Map_has cache icon"
    and "readFileSync e (iconFsPath e (icon @ ''.svg'')) = Inl err"
  shows "getSvgDataUrl cap e cache icon = (Inl err, cache)"
  using assms by (simp add: getSvgDataUrl_def lruGet_miss)

text \<open>A missing file, with two entries cached.\<close>

theorem getSvgDataUrl_read_failure_witness:
  "getSvgDataUrl 2 unreadable_env [(''x'', ''data:x''), (''search'', ''data:s'')] ''missing'' =
     (Inl ENOENT, [(''x'', ''data:x''), (''search'', ''data:s'')])"
  using getSvgDataUrl_read_failure [of "[(''x'', ''data:x''), (''search'', ''data:s'')]" "''missing''"
      unreadable_env ENOENT 2]
  by (simp add: Map_has_def unreadable_env_def)

text \<open>
  Claim C10. On a cache within its bound, \<^verbatim>\<open>lruGet\<close> never changes the set of stored
  key-value pairs: a miss returns the Map as it is, a hit moves the entry to the newest
  position and keeps every other entry in order. \<^verbatim>\<open>lruSet\<close> with a key that is present
  moves the key to the newest position with the new value and evicts nothing: the key set
  and the size are unchanged and every other key keeps its value.
\<close>

theorem lru_frame:
  assumes "distinct (Map_keys cache)" and "Map_size cache \<le> cap"
  shows "set (snd (lruGet cache key)) = set cache \<and>
         (\<not> Map_has cache key \<longrightarrow> lruGet cache key = (None, cache)) \<and>
         (Map_has cache key \<longrightarrow>
            (\<exists>v. Map_get cache key = Some v \<and>
                 lruGet cache key = (Some v, Map_delete cache key @ [(key, v)]))) \<and>
         (Map_has cache key \<longrightarrow>
            lruSet cap cache key val = Map_delete cache key @ [(key, val)] \<and>
            set (Map_keys (lruSet cap cache key val)) = set (Map_keys cache) \<and>
            Map_size (lruSet cap cache key val) = Map_size cache \<and>
            Map_get (lruSet cap cache key val) key = Some val \<and>
            (\<forall>k. k \<noteq> key \<longrightarrow> Map_get (lruSet cap cache key val) k = Map_get cache k))"
proof -
  have d: "distinct (map fst cache)" and l: "length cache \<le> cap"
    using assms by (simp_all add: Map_keys_def Map_size_def)
  have miss: "\<not> Map_has cache key \<longrightarrow> lruGet cache key = (None, cache)"
    by (simp add: lruGet_miss)
  have hit: "Map_has cache key \<longrightarrow>
      (\<exists>v. Map_get cache key = Some v \<and> lruGet cache key = (Some v, Map_delete cache key @ [(key, v)]))"
    using Map_get_None_iff [of cache key] by (auto simp: lruGet_hit)
  have frame: "set (snd (lruGet cache key)) = set cache"
  proof (cases "Map_has cache key")
    case True
    with hit obtain v where "Map_get cache key = Some v"
      "lruGet cache key = (Some v, Map_delete cache key @ [(key, v)])" by blast
    with d show ?thesis using set_Map_delete_hit [of cache key v] by simp
  next
    case False
    with miss show ?thesis by simp
  qed
  have set_part: "Map_has cache key \<longrightarrow>
      lruSet cap cache key val = Map_delete cache key @ [(key, val)] \<and>
      set (Map_keys (lruSet cap cache key val)) = set (Map_keys cache) \<and>
      Map_size (lruSet cap cache key val) = Map_size cache \<and>
      Map_get (lruSet cap cache key val) key = Some val \<and>
      (\<forall>k. k \<noteq> key \<longrightarrow> Map_get (lruSet cap cache key val) k = Map_get cache k)"
  proof
    assume h: "Map_has cache key"
    have eq: "lruSet cap cache key val = Map_delete cache key @ [(key, val)]"
      using d l h by (rule lruSet_present)
    have "set (map fst (Map_delete cache key @ [(key, val)])) = set (map fst cache)"
      using h by (auto simp: Map_delete_keys Map_has_def)
    moreover have "length (Map_delete cache key @ [(key, val)]) = length cache"
      using length_Map_delete_present [OF d h] by simp
    moreover have "map_of (Map_delete cache key @ [(key, val)]) key = Some val"
      using Map_has_delete [of cache key]
      by (simp add: Map_has_def map_add_Some_iff map_of_eq_None_iff)
    moreover have "\<forall>k. k \<noteq> key \<longrightarrow> map_of (Map_delete cache key @ [(key, val)]) k = map_of cache k"
      by (auto simp: Map_delete_def map_add_def map_of_filter_other split: option.splits)
    ultimately show "lruSet cap cache key val = Map_delete cache key @ [(key, val)] \<and>
      set (Map_keys (lruSet cap cache key val)) = set (Map_keys cache) \<and>
      Map_size (lruSet cap cache key val) = Map_size cache \<and>
      Map_get (lruSet cap cache key val) key = Some val \<and>
      (\<forall>k. k \<noteq> key \<longrightarrow> Map_get (lruSet cap cache key val) k = Map_get cache k)"
      using eq by (simp add: Map_keys_def Map_size_def Map_get_def)
  qed
  from frame miss hit set_part show ?thesis by blast
qed

text \<open>A hit, a miss and an update at bound 2.\<close>

theorem lru_frame_witness:
  "lruGet [(''x'', ''1''), (''search'', ''2'')] ''x'' = (Some ''1'', [(''search'', ''2''), (''x'', ''1'')]) \<and>
   lruGet [(''x'', ''1''), (''search'', ''2'')] ''a'' = (None, [(''x'', ''1''), (''search'', ''2'')]) \<and>
   lruSet 2 [(''x'', ''1''), (''search'', ''2'')] ''x'' ''9'' = [(''search'', ''2''), (''x'', ''9'')]"
  using lru_frame [of "[(''x'', ''1''), (''search'', ''2'')]" 2 "''x''" "''9''"]
    lru_frame [of "[(''x'', ''1''), (''search'', ''2'')]" 2 "''a''" "''9''"]
  by (simp add: Map_keys_def Map_size_def Map_has_def Map_get_def Map_delete_def)

section \<open>Properties of the token scanner\<close>

lemma regex_matches_Nil: "regex_matches k [] = []"
  by (simp add: regex_matches.simps)

lemma regex_matches_None:
  "s \<noteq> [] \<Longrightarrow> matchHere s = None \<Longrightarrow> regex_matches k s = regex_matches (Suc k) (tl s)"
  by (subst regex_matches.simps) simp

lemma regex_matches_Some:
  "matchHere s = Some g \<Longrightarrow>
   regex_matches k s = (k, g) # regex_matches (k + (6 + length g)) (drop (6 + length g) s)"
  by (subst regex_matches.simps) (auto simp: matchHere_def split: if_splits)

lemma regex_matches_skip:
  "n \<le> length s \<Longrightarrow> \<forall>i<n. matchHere (drop i s) = None \<Longrightarrow>
   regex_matches k s = regex_matches (k + n) (drop n s)"
proof (induction n arbitrary: s k)
  case 0
  then show ?case by simp
next
  case (Suc n)
  from Suc.prems(1) have ne: "s \<noteq> []" by auto
  from Suc.prems(2) have "matchHere (drop 0 s) = None" by blast
  then have here: "matchHere s = None" by simp
  have len: "n \<le> length (tl s)" using Suc.prems(1) by simp
  have rest: "\<forall>i<n. matchHere (drop i (tl s)) = None"
    using Suc.prems(2) by (auto simp: drop_Suc [symmetric])
  have "regex_matches k s = regex_matches (Suc k) (tl s)"
    using ne here by (rule regex_matches_None)
  also have "\<dots> = regex_matches (Suc k + n) (drop n (tl s))"
    using len rest by (rule Suc.IH)
  finally show ?case by (simp add: drop_Suc)
qed

lemma regex_matches_none:
  "\<forall>i<length s. matchHere (drop i s) = None \<Longrightarrow> regex_matches k s = []"
  using regex_matches_skip [of "length s" s k] by (simp add: regex_matches_Nil)

lemma takeWhile_token:
  "list_all isIconChar ident \<Longrightarrow> post = [] \<or> \<not> isIconChar (hd post) \<Longrightarrow>
   takeWhile isIconChar (ident @ post) = ident"
  by (cases post) (auto simp: list_all_iff takeWhile_append2 intro: takeWhile_eq_all_conv [THEN iffD2])

lemma matchHere_token:
  "ident \<noteq> [] \<Longrightarrow> list_all isIconChar ident \<Longrightarrow> post = [] \<or> \<not> isIconChar (hd post) \<Longrightarrow>
   matchHere (''ti ti-'' @ ident @ post) = Some ident"
  by (simp add: matchHere_def takeWhile_token)

lemma matchHere_marker_only:
  "post = [] \<or> \<not> isIconChar (hd post) \<Longrightarrow> matchHere (''ti ti-'' @ post) = None"
  by (cases post) (auto simp: matchHere_def)

lemma drop_past_prefix: "drop (length pre + j) (pre @ rest) = drop j rest"
  by simp

lemma regex_matches_one:
  assumes tok: "matchHere (tok @ post) = Some g" and len: "length tok = 6 + length g"
    and other: "\<forall>i<length (pre @ tok @ post).
           i < length pre \<or> length pre + length tok \<le> i \<longrightarrow>
           matchHere (drop i (pre @ tok @ post)) = None"
  shows "regex_matches 0 (pre @ tok @ post) = [(length pre, g)]"
proof -
  let ?text = "pre @ tok @ post"
  have before: "\<forall>i<length pre. matchHere (drop i ?text) = None"
    using other by simp
  have after: "\<forall>i<length post. matchHere (drop i post) = None"
  proof (intro allI impI)
    fix i assume i: "i < length post"
    have "drop (length pre + length tok + i) ?text = drop i post" by simp
    moreover have "matchHere (drop (length pre + length tok + i) ?text) = None"
    proof -
      have "length pre + length tok + i < length ?text" using i by simp
      moreover have "length pre + length tok \<le> length pre + length tok + i" by simp
      ultimately show ?thesis using other by blast
    qed
    ultimately show "matchHere (drop i post) = None" by simp
  qed
  have "regex_matches 0 ?text = regex_matches (0 + length pre) (drop (length pre) ?text)"
    using before by (intro regex_matches_skip) simp_all
  also have "\<dots> = regex_matches (length pre) (tok @ post)" by simp
  also have "\<dots> = (length pre, g) #
      regex_matches (length pre + (6 + length g)) (drop (6 + length g) (tok @ post))"
    using tok by (rule regex_matches_Some)
  also have "drop (6 + length g) (tok @ post) = post" using len by simp
  also have "regex_matches (length pre + (6 + length g)) post = []"
    using after by (rule regex_matches_none)
  finally show ?thesis .
qed

lemma regex_matches_single:
  assumes "ident \<noteq> []" and "list_all isIconChar ident" and "post = [] \<or> \<not> isIconChar (hd post)"
    and "\<forall>i<length (pre @ ''ti ti-'' @ ident @ post).
           i < length pre \<or> length pre + length (''ti ti-'' @ ident) \<le> i \<longrightarrow>
           matchHere (drop i (pre @ ''ti ti-'' @ ident @ post)) = None"
  shows "regex_matches 0 (pre @ ''ti ti-'' @ ident @ post) = [(length pre, ident)]"
proof -
  have "matchHere ((''ti ti-'' @ ident) @ post) = Some ident"
    using matchHere_token [OF assms(1-3)] by simp
  moreover have "length (''ti ti-'' @ ident) = 6 + length ident" by simp
  moreover have "\<forall>i<length (pre @ (''ti ti-'' @ ident) @ post).
           i < length pre \<or> length pre + length (''ti ti-'' @ ident) \<le> i \<longrightarrow>
           matchHere (drop i (pre @ (''ti ti-'' @ ident) @ post)) = None"
    using assms(4) by (simp only: append_assoc)
  ultimately have "regex_matches 0 (pre @ (''ti ti-'' @ ident) @ post) = [(length pre, ident)]"
    by (rule regex_matches_one)
  then show ?thesis by (simp only: append_assoc)
qed

lemma matchHere_not_t: "c \<noteq> CHR ''t'' \<Longrightarrow> matchHere (c # s) = None"
  by (simp add: matchHere_def)

lemma regex_matches_marker_only:
  assumes "post = [] \<or> \<not> isIconChar (hd post)"
    and "\<forall>i<length (pre @ ''ti ti-'' @ post).
           i < length pre \<or> length pre + 6 \<le> i \<longrightarrow>
           matchHere (drop i (pre @ ''ti ti-'' @ post)) = None"
  shows "regex_matches 0 (pre @ ''ti ti-'' @ post) = []"
proof (rule regex_matches_none, intro allI impI)
  let ?text = "pre @ ''ti ti-'' @ post"
  fix i assume i: "i < length ?text"
  show "matchHere (drop i ?text) = None"
  proof (cases "i < length pre \<or> length pre + 6 \<le> i")
    case True
    with assms(2) i show ?thesis by blast
  next
    case False
    then obtain j where j: "i = length pre + j" "j < 6"
      by (metis le_Suc_ex not_le nat_add_left_cancel_less)
    then have d: "drop i ?text = drop j (''ti ti-'' @ post)"
      by (simp only: drop_past_prefix)
    from j(2) have "j = 0 \<or> j = 1 \<or> j = 2 \<or> j = 3 \<or> j = 4 \<or> j = 5" by arith
    then show ?thesis
    proof (elim disjE)
      assume "j = 0"
      then have "drop i ?text = ''ti ti-'' @ post" using d by (simp only: drop_0)
      with assms(1) show ?thesis by (simp only: matchHere_marker_only)
    next
      assume "j = 1"
      then have "drop j (''ti ti-'' @ post) = ''i ti-'' @ post" by (simp add: eval_nat_numeral)
      with d show ?thesis by (simp add: matchHere_not_t)
    next
      assume "j = 2"
      then have "drop j (''ti ti-'' @ post) = '' ti-'' @ post" by (simp add: eval_nat_numeral)
      with d show ?thesis by (simp add: matchHere_not_t)
    next
      assume "j = 3"
      then have "drop j (''ti ti-'' @ post) = ''ti-'' @ post" by (simp add: eval_nat_numeral)
      with d show ?thesis by (simp add: matchHere_def eval_nat_numeral take_Cons')
    next
      assume "j = 4"
      then have "drop j (''ti ti-'' @ post) = ''i-'' @ post" by (simp add: eval_nat_numeral)
      with d show ?thesis by (simp add: matchHere_not_t)
    next
      assume "j = 5"
      then have "drop j (''ti ti-'' @ post) = ''-'' @ post" by (simp add: eval_nat_numeral)
      with d show ?thesis by (simp add: matchHere_not_t)
    qed
  qed
qed

lemma covered_middle:
  "covered (pre @ tok @ post)
     \<lparr>range_start = \<lparr>line = ln, character = length pre\<rparr>,
      range_end = \<lparr>line = ln, character = length pre + length tok\<rparr>\<rparr> = tok"
  by (simp add: covered_def)

lemma list_all_upt_all: "list_all P [0..<n] \<Longrightarrow> \<forall>i<n. P i"
  by (simp add: list_all_iff)

text \<open>
  Claim C4, as the code has it. Let a line contain the token \<^verbatim>\<open>ti ti-<identifier>\<close> where
  the identifier is a non-empty string of lowercase letters, digits and hyphens and is not
  directly followed by another such character, and let the pattern match nowhere else in
  the line (not before the token, not after it). Then the scan of the line yields exactly
  one span; it is filed under the identifier and covers exactly the text
  \<^verbatim>\<open>ti ti-<identifier>\<close>. The scanner never consults the catalog, so this holds for an
  identifier whether it is in the catalog or not.
\<close>

theorem scan_single_token:
  assumes "ident \<noteq> []" and "list_all isIconChar ident"
    and "post = [] \<or> \<not> isIconChar (hd post)"
    and "\<forall>i<length (pre @ ''ti ti-'' @ ident @ post).
           i < length pre \<or> length pre + length (''ti ti-'' @ ident) \<le> i \<longrightarrow>
           matchHere (drop i (pre @ ''ti ti-'' @ ident @ post)) = None"
  shows "lineMatches ln (pre @ ''ti ti-'' @ ident @ post) =
           [(ident, \<lparr>range_start = \<lparr>line = ln, character = length pre\<rparr>,
                     range_end = \<lparr>line = ln, character = length pre + length (''ti ti-'' @ ident)\<rparr>\<rparr>)] \<and>
         covered (pre @ ''ti ti-'' @ ident @ post)
           \<lparr>range_start = \<lparr>line = ln, character = length pre\<rparr>,
            range_end = \<lparr>line = ln, character = length pre + length (''ti ti-'' @ ident)\<rparr>\<rparr> =
           ''ti ti-'' @ ident"
proof -
  have "regex_matches 0 (pre @ ''ti ti-'' @ ident @ post) = [(length pre, ident)]"
    using assms by (rule regex_matches_single)
  then have "lineMatches ln (pre @ ''ti ti-'' @ ident @ post) =
           [(ident, \<lparr>range_start = \<lparr>line = ln, character = length pre\<rparr>,
                     range_end = \<lparr>line = ln, character = length pre + length (''ti ti-'' @ ident)\<rparr>\<rparr>)]"
    by (simp add: lineMatches_def matchSpan_def)
  moreover have "covered (pre @ (''ti ti-'' @ ident) @ post)
           \<lparr>range_start = \<lparr>line = ln, character = length pre\<rparr>,
            range_end = \<lparr>line = ln, character = length pre + length (''ti ti-'' @ ident)\<rparr>\<rparr> =
           ''ti ti-'' @ ident"
    by (rule covered_middle)
  ultimately show ?thesis by (simp only: append_assoc) 
qed

lemma search_line_split:
  "search_line = (''<i class='' @ [CHR 0x22]) @ ''ti ti-'' @ ''search'' @ ('' text-xl'' @ [CHR 0x22] @ ''></i>'')"
  by (simp add: search_line_def)

lemma search_line_other:
  "\<forall>i<length ((''<i class='' @ [CHR 0x22]) @ ''ti ti-'' @ ''search'' @ ('' text-xl'' @ [CHR 0x22] @ ''></i>'')).
      i < length (''<i class='' @ [CHR 0x22]) \<or>
      length (''<i class='' @ [CHR 0x22]) + length (''ti ti-'' @ ''search'') \<le> i \<longrightarrow>
      matchHere (drop i ((''<i class='' @ [CHR 0x22]) @ ''ti ti-'' @ ''search'' @
         ('' text-xl'' @ [CHR 0x22] @ ''></i>''))) = None"
  by (rule list_all_upt_all) code_simp

text \<open>
  The spec's scenario: the line \<^verbatim>\<open><i class="ti ti-search text-xl"></i>\<close> yields one
  span, for \<open>search\<close>, covering \<^verbatim>\<open>ti ti-search\<close> (columns 10 to 22).
\<close>

theorem scan_single_token_witness:
  "lineMatches 0 search_line =
     [(''search'', \<lparr>range_start = \<lparr>line = 0, character = 10\<rparr>,
                    range_end = \<lparr>line = 0, character = 22\<rparr>\<rparr>)] \<and>
   covered search_line \<lparr>range_start = \<lparr>line = 0, character = 10\<rparr>,
                        range_end = \<lparr>line = 0, character = 22\<rparr>\<rparr> = ''ti ti-search''"
proof -
  have len1: "length (''<i class='' @ [CHR 0x22]) = 10" by simp
  have len2: "length (''ti ti-'' @ ''search'') = 12" by simp
  have ne: "''search'' \<noteq> []" by simp
  have ic: "list_all isIconChar ''search''" by (simp add: isIconChar_def)
  have dl: "'' text-xl'' @ [CHR 0x22] @ ''></i>'' = [] \<or>
            \<not> isIconChar (hd ('' text-xl'' @ [CHR 0x22] @ ''></i>''))"
    by (simp add: isIconChar_def)
  from scan_single_token [OF ne ic dl search_line_other, of 0]
  show ?thesis unfolding len1 len2 search_line_split [symmetric] by simp
qed

text \<open>
  Claim C4 as stated (any line that contains \<^verbatim>\<open>ti ti-<identifier>\<close>) fails when the
  identifier is followed by more identifier characters, because the character class is
  matched greedily: the line \<^verbatim>\<open><i class="ti ti-search-off"></i>\<close> contains
  \<^verbatim>\<open>ti ti-search\<close> at column 10 and the pattern matches once, but the one span is
  filed under \<open>search-off\<close> and covers \<^verbatim>\<open>ti ti-search-off\<close>.
\<close>

theorem scan_single_token_counterexample:
  "take 12 (drop 10 search_off_line) = ''ti ti-search'' \<and>
   lineMatches 0 search_off_line =
     [(''search-off'', \<lparr>range_start = \<lparr>line = 0, character = 10\<rparr>,
                        range_end = \<lparr>line = 0, character = 26\<rparr>\<rparr>)] \<and>
   covered search_off_line \<lparr>range_start = \<lparr>line = 0, character = 10\<rparr>,
                            range_end = \<lparr>line = 0, character = 26\<rparr>\<rparr> = ''ti ti-search-off''"
  by code_simp

lemma two_tokens: "regex_matches 0 ''ti ti-a ti ti-b'' = [(0, ''a''), (8, ''b'')]"
  by code_simp

lemma marker_alone: "regex_matches 0 ''ti ti-'' = []"
  by code_simp

text \<open>
  Claim C5. The line \<^verbatim>\<open>ti ti-\<close> yields no match, and so does every line in which
  \<^verbatim>\<open>ti ti-\<close> is followed by no identifier character and the pattern matches nowhere
  else. The line \<^verbatim>\<open>ti ti-a ti ti-b\<close> yields exactly two spans: the first for \<open>a\<close>
  on columns 0 to 7, the second for \<open>b\<close> on columns 8 to 15, so they do not overlap, and
  they cover \<^verbatim>\<open>ti ti-a\<close> and \<^verbatim>\<open>ti ti-b\<close>.
\<close>

theorem scan_boundaries:
  "lineMatches ln ''ti ti-'' = [] \<and>
   ((post = [] \<or> \<not> isIconChar (hd post)) \<and>
    (\<forall>i<length (pre @ ''ti ti-'' @ post).
        i < length pre \<or> length pre + 6 \<le> i \<longrightarrow>
        matchHere (drop i (pre @ ''ti ti-'' @ post)) = None) \<longrightarrow>
    lineMatches ln (pre @ ''ti ti-'' @ post) = []) \<and>
   lineMatches ln ''ti ti-a ti ti-b'' =
     [(''a'', \<lparr>range_start = \<lparr>line = ln, character = 0\<rparr>, range_end = \<lparr>line = ln, character = 7\<rparr>\<rparr>),
      (''b'', \<lparr>range_start = \<lparr>line = ln, character = 8\<rparr>, range_end = \<lparr>line = ln, character = 15\<rparr>\<rparr>)] \<and>
   covered ''ti ti-a ti ti-b''
     \<lparr>range_start = \<lparr>line = ln, character = 0\<rparr>, range_end = \<lparr>line = ln, character = 7\<rparr>\<rparr> = ''ti ti-a'' \<and>
   covered ''ti ti-a ti ti-b''
     \<lparr>range_start = \<lparr>line = ln, character = 8\<rparr>, range_end = \<lparr>line = ln, character = 15\<rparr>\<rparr> = ''ti ti-b''"
proof (intro conjI impI)
  show "lineMatches ln ''ti ti-'' = []"
    by (simp add: lineMatches_def marker_alone)
  show "lineMatches ln ''ti ti-a ti ti-b'' =
     [(''a'', \<lparr>range_start = \<lparr>line = ln, character = 0\<rparr>, range_end = \<lparr>line = ln, character = 7\<rparr>\<rparr>),
      (''b'', \<lparr>range_start = \<lparr>line = ln, character = 8\<rparr>, range_end = \<lparr>line = ln, character = 15\<rparr>\<rparr>)]"
    by (simp add: lineMatches_def two_tokens matchSpan_def)
  show "covered ''ti ti-a ti ti-b''
     \<lparr>range_start = \<lparr>line = ln, character = 0\<rparr>, range_end = \<lparr>line = ln, character = 7\<rparr>\<rparr> = ''ti ti-a''"
    by (simp add: covered_def)
  show "covered ''ti ti-a ti ti-b''
     \<lparr>range_start = \<lparr>line = ln, character = 8\<rparr>, range_end = \<lparr>line = ln, character = 15\<rparr>\<rparr> = ''ti ti-b''"
    by (simp add: covered_def)
next
  assume h: "(post = [] \<or> \<not> isIconChar (hd post)) \<and>
    (\<forall>i<length (pre @ ''ti ti-'' @ post).
        i < length pre \<or> length pre + 6 \<le> i \<longrightarrow>
        matchHere (drop i (pre @ ''ti ti-'' @ post)) = None)"
  then have a: "post = [] \<or> \<not> isIconChar (hd post)"
    and b: "\<forall>i<length (pre @ ''ti ti-'' @ post).
        i < length pre \<or> length pre + 6 \<le> i \<longrightarrow>
        matchHere (drop i (pre @ ''ti ti-'' @ post)) = None"
    by (rule conjunct1, rule conjunct2)
  have "regex_matches 0 (pre @ ''ti ti-'' @ post) = []"
    using a b by (rule regex_matches_marker_only)
  then show "lineMatches ln (pre @ ''ti ti-'' @ post) = []"
    by (simp add: lineMatches_def)
qed

lemma empty_icon_line_other:
  "\<forall>i<length ((''<i class='' @ [CHR 0x22]) @ ''ti ti-'' @ ([CHR 0x22] @ ''></i>'')).
      i < length (''<i class='' @ [CHR 0x22]) \<or> length (''<i class='' @ [CHR 0x22]) + 6 \<le> i \<longrightarrow>
      matchHere (drop i ((''<i class='' @ [CHR 0x22]) @ ''ti ti-'' @ ([CHR 0x22] @ ''></i>''))) = None"
  by (rule list_all_upt_all) code_simp

text \<open>The line \<^verbatim>\<open><i class="ti ti-"></i>\<close> yields no match.\<close>

theorem scan_boundaries_witness:
  "lineMatches 0 ((''<i class='' @ [CHR 0x22]) @ ''ti ti-'' @ ([CHR 0x22] @ ''></i>'')) = [] \<and>
   lineMatches 0 ''ti ti-'' = [] \<and>
   map fst (lineMatches 0 ''ti ti-a ti ti-b'') = [''a'', ''b'']"
proof -
  have dl: "[CHR 0x22] @ ''></i>'' = [] \<or> \<not> isIconChar (hd ([CHR 0x22] @ ''></i>''))"
    by (simp add: isIconChar_def)
  from scan_boundaries [of 0 "[CHR 0x22] @ ''></i>''" "''<i class='' @ [CHR 0x22]"]
    dl empty_icon_line_other
  have "lineMatches 0 ((''<i class='' @ [CHR 0x22]) @ ''ti ti-'' @ ([CHR 0x22] @ ''></i>'')) = []"
    and "lineMatches 0 ''ti ti-'' = []"
    and "lineMatches 0 ''ti ti-a ti ti-b'' =
     [(''a'', \<lparr>range_start = \<lparr>line = 0, character = 0\<rparr>, range_end = \<lparr>line = 0, character = 7\<rparr>\<rparr>),
      (''b'', \<lparr>range_start = \<lparr>line = 0, character = 8\<rparr>, range_end = \<lparr>line = 0, character = 15\<rparr>\<rparr>)]"
    by blast+
  then show ?thesis by simp
qed

section \<open>Properties of the decoration registry\<close>

lemma getDecorationForIcon_hit:
  "Map_get (decorationCache st) nm = Some h \<Longrightarrow> getDecorationForIcon e st nm = (h, st)"
  by (simp add: getDecorationForIcon_def)

lemma getDecorationForIcon_miss:
  "Map_get (decorationCache st) nm = None \<Longrightarrow>
   getDecorationForIcon e st nm =
     (\<lparr>deco_key = created st, gutterIconPath = iconFsPath e (nm @ ''.svg'')\<rparr>,
      \<lparr>decorationCache = decorationCache st @
         [(nm, \<lparr>deco_key = created st, gutterIconPath = iconFsPath e (nm @ ''.svg'')\<rparr>)],
       created = Suc (created st)\<rparr>)"
proof -
  assume n: "Map_get (decorationCache st) nm = None"
  then have "\<not> Map_has (decorationCache st) nm"
    by (simp add: Map_get_def Map_has_def map_of_eq_None_iff)
  then have "Map_set (decorationCache st) nm d = decorationCache st @ [(nm, d)]" for d
    by (simp add: Map_set_def)
  with n show ?thesis by (simp add: getDecorationForIcon_def Let_def)
qed

lemma Map_get_snoc_new: "Map_get m k = None \<Longrightarrow> Map_get (m @ [(k, v)]) k = Some v"
  by (simp add: Map_get_def map_add_def)

lemma Map_get_snoc_old: "Map_get m k = Some v \<Longrightarrow> Map_get (m @ [(k', v')]) k = Some v"
  by (simp add: Map_get_def map_add_def)

lemma Map_get_Some_key: "Map_get m k = Some v \<Longrightarrow> k \<in> set (Map_keys m)"
  unfolding Map_get_def Map_keys_def
  by (metis map_of_eq_None_iff option.distinct(1) list.set_map)

lemma Map_get_None_key: "Map_get m k = None \<Longrightarrow> k \<notin> set (Map_keys m)"
  unfolding Map_get_def Map_keys_def by (simp add: map_of_eq_None_iff)

lemma getDecorationForIcon_result:
  assumes "getDecorationForIcon e st nm = (h, st')"
  shows "Map_get (decorationCache st') nm = Some h"
    and "Map_get (decorationCache st) k = Some v \<Longrightarrow> Map_get (decorationCache st') k = Some v"
    and "distinct (Map_keys (decorationCache st)) \<Longrightarrow> distinct (Map_keys (decorationCache st'))"
    and "set (Map_keys (decorationCache st')) = insert nm (set (Map_keys (decorationCache st)))"
    and "created st' = created st + (if nm \<in> set (Map_keys (decorationCache st)) then 0 else 1)"
    and "set (Map_values (decorationCache st)) \<subseteq> set (Map_values (decorationCache st'))"
    and "set (Map_values (decorationCache st')) \<subseteq> insert h (set (Map_values (decorationCache st)))"
proof -
  have all: "Map_get (decorationCache st') nm = Some h \<and>
    (Map_get (decorationCache st) k = Some v \<longrightarrow> Map_get (decorationCache st') k = Some v) \<and>
    (distinct (Map_keys (decorationCache st)) \<longrightarrow> distinct (Map_keys (decorationCache st'))) \<and>
    set (Map_keys (decorationCache st')) = insert nm (set (Map_keys (decorationCache st))) \<and>
    created st' = created st + (if nm \<in> set (Map_keys (decorationCache st)) then 0 else 1) \<and>
    set (Map_values (decorationCache st)) \<subseteq> set (Map_values (decorationCache st')) \<and>
    set (Map_values (decorationCache st')) \<subseteq> insert h (set (Map_values (decorationCache st)))"
  proof (cases "Map_get (decorationCache st) nm")
    case None
    from assms getDecorationForIcon_miss [OF None, of e]
    have h: "h = \<lparr>deco_key = created st, gutterIconPath = iconFsPath e (nm @ ''.svg'')\<rparr>"
      and c: "decorationCache st' = decorationCache st @ [(nm, h)]"
      and n: "created st' = Suc (created st)"
      by auto
    have nk: "nm \<notin> set (Map_keys (decorationCache st))" using None by (rule Map_get_None_key)
    have 1: "Map_get (decorationCache st') nm = Some h"
      unfolding c using None by (rule Map_get_snoc_new)
    have 2: "Map_get (decorationCache st) k = Some v \<longrightarrow> Map_get (decorationCache st') k = Some v"
      unfolding c by (simp add: Map_get_snoc_old)
    have 3: "distinct (Map_keys (decorationCache st)) \<longrightarrow> distinct (Map_keys (decorationCache st'))"
      using nk unfolding c by (simp add: Map_keys_def)
    have 4: "set (Map_keys (decorationCache st')) = insert nm (set (Map_keys (decorationCache st)))"
      unfolding c by (simp add: Map_keys_def)
    have 5: "created st' = created st + (if nm \<in> set (Map_keys (decorationCache st)) then 0 else 1)"
      using nk n by simp
    have 6: "set (Map_values (decorationCache st)) \<subseteq> set (Map_values (decorationCache st'))"
      unfolding c by (simp add: Map_values_def subset_insertI)
    have 7: "set (Map_values (decorationCache st')) \<subseteq> insert h (set (Map_values (decorationCache st)))"
      unfolding c by (simp add: Map_values_def)
    from 1 2 3 4 5 6 7 show ?thesis by blast
  next
    case (Some a)
    from assms getDecorationForIcon_hit [OF Some, of e] have h: "h = a" and s: "st' = st" by auto
    have k: "nm \<in> set (Map_keys (decorationCache st))" using Some by (rule Map_get_Some_key)
    then have "insert nm (set (Map_keys (decorationCache st))) = set (Map_keys (decorationCache st))"
      by (rule insert_absorb)
    with Some h s k show ?thesis by (simp add: subset_insertI)
  qed
  from all show "Map_get (decorationCache st') nm = Some h" by (rule conjunct1)
  from all show "Map_get (decorationCache st) k = Some v \<Longrightarrow> Map_get (decorationCache st') k = Some v"
    by blast
  from all show "distinct (Map_keys (decorationCache st)) \<Longrightarrow> distinct (Map_keys (decorationCache st'))"
    by blast
  from all show "set (Map_keys (decorationCache st')) = insert nm (set (Map_keys (decorationCache st)))"
    by blast
  from all show "created st' = created st + (if nm \<in> set (Map_keys (decorationCache st)) then 0 else 1)"
    by blast
  from all show "set (Map_values (decorationCache st)) \<subseteq> set (Map_values (decorationCache st'))"
    by blast
  from all show "set (Map_values (decorationCache st')) \<subseteq> insert h (set (Map_values (decorationCache st)))"
    by blast
qed

lemma getDecorationForIcon_seq_result:
  assumes "getDecorationForIcon_seq e st names = (hs, st')"
  shows "length hs = length names \<and>
         (\<forall>i<length names. Map_get (decorationCache st') (names ! i) = Some (hs ! i)) \<and>
         (\<forall>k v. Map_get (decorationCache st) k = Some v \<longrightarrow> Map_get (decorationCache st') k = Some v) \<and>
         (distinct (Map_keys (decorationCache st)) \<longrightarrow> distinct (Map_keys (decorationCache st'))) \<and>
         set (Map_keys (decorationCache st')) = set (Map_keys (decorationCache st)) \<union> set names \<and>
         created st' = created st + card (set names - set (Map_keys (decorationCache st)))"
  using assms
proof (induction names arbitrary: st hs st')
  case Nil
  then show ?case by simp
next
  case (Cons nm names)
  obtain h st1 where step: "getDecorationForIcon e st nm = (h, st1)" by force
  obtain hs' st2 where rest: "getDecorationForIcon_seq e st1 names = (hs', st2)" by force
  from Cons.prems step rest have hs: "hs = h # hs'" and st': "st' = st2" by simp_all
  note r = getDecorationForIcon_result [OF step]
  note ih = Cons.IH [OF rest]
  have len: "length hs = length (nm # names)" using ih hs by simp
  have keep: "\<forall>k v. Map_get (decorationCache st) k = Some v \<longrightarrow> Map_get (decorationCache st') k = Some v"
    using r(2) ih st' by blast
  have look: "\<forall>i<length (nm # names). Map_get (decorationCache st') ((nm # names) ! i) = Some (hs ! i)"
  proof (intro allI impI)
    fix i assume i: "i < length (nm # names)"
    show "Map_get (decorationCache st') ((nm # names) ! i) = Some (hs ! i)"
    proof (cases i)
      case 0
      with r(1) ih st' hs show ?thesis by auto
    next
      case (Suc j)
      with i ih st' hs show ?thesis by auto
    qed
  qed
  have dist: "distinct (Map_keys (decorationCache st)) \<longrightarrow> distinct (Map_keys (decorationCache st'))"
    using r(3) ih st' by blast
  have keys: "set (Map_keys (decorationCache st')) = set (Map_keys (decorationCache st)) \<union> set (nm # names)"
    using r(4) ih st' by auto
  have cnt: "created st' = created st + card (set (nm # names) - set (Map_keys (decorationCache st)))"
  proof (cases "nm \<in> set (Map_keys (decorationCache st))")
    case True
    then have "set (nm # names) - set (Map_keys (decorationCache st)) =
        set names - set (Map_keys (decorationCache st1))"
      using r(4) by auto
    with True r(5) ih st' show ?thesis by simp
  next
    case False
    then have "set (nm # names) - set (Map_keys (decorationCache st)) =
        insert nm (set names - set (Map_keys (decorationCache st1)))"
      using r(4) by auto
    moreover have "nm \<notin> set names - set (Map_keys (decorationCache st1))" using r(4) by simp
    ultimately have "card (set (nm # names) - set (Map_keys (decorationCache st))) =
        Suc (card (set names - set (Map_keys (decorationCache st1))))"
      by simp
    with False r(5) ih st' show ?thesis by simp
  qed
  from len look keep dist keys cnt show ?case by blast
qed

text \<open>
  Claim C9. On the registry (a Map, so its keys are unique), \<^verbatim>\<open>getDecorationForIcon\<close>
  returns the handle that is already stored for an identifier and leaves the state as it
  is. After any sequence of calls, two calls with the same identifier have returned the
  same handle, the registry still holds one entry per identifier, and the host was asked
  for exactly one new handle per identifier that was not in the registry before: at most
  one handle per identifier is ever created.
\<close>

theorem registry_one_handle_per_identifier:
  assumes "distinct (Map_keys (decorationCache st))"
  shows "(\<forall>h. Map_get (decorationCache st) nm = Some h \<longrightarrow> getDecorationForIcon e st nm = (h, st)) \<and>
         (\<forall>i<length names. \<forall>j<length names. names ! i = names ! j \<longrightarrow>
            fst (getDecorationForIcon_seq e st names) ! i = fst (getDecorationForIcon_seq e st names) ! j) \<and>
         distinct (Map_keys (decorationCache (snd (getDecorationForIcon_seq e st names)))) \<and>
         created (snd (getDecorationForIcon_seq e st names)) =
           created st + card (set names - set (Map_keys (decorationCache st)))"
proof -
  obtain hs st' where run: "getDecorationForIcon_seq e st names = (hs, st')" by force
  note r = getDecorationForIcon_seq_result [OF run]
  note look = r [THEN conjunct2, THEN conjunct1]
  note dist = r [THEN conjunct2, THEN conjunct2, THEN conjunct2, THEN conjunct1]
  note cnt = r [THEN conjunct2, THEN conjunct2, THEN conjunct2, THEN conjunct2, THEN conjunct2]
  have same: "\<forall>i<length names. \<forall>j<length names. names ! i = names ! j \<longrightarrow> hs ! i = hs ! j"
  proof (intro allI impI)
    fix i j assume i: "i < length names" and j: "j < length names" and eq: "names ! i = names ! j"
    from look i have "Map_get (decorationCache st') (names ! i) = Some (hs ! i)" by blast
    moreover from look j have "Map_get (decorationCache st') (names ! j) = Some (hs ! j)" by blast
    ultimately show "hs ! i = hs ! j" using eq by simp
  qed
  have hit: "\<forall>h. Map_get (decorationCache st) nm = Some h \<longrightarrow> getDecorationForIcon e st nm = (h, st)"
    by (simp add: getDecorationForIcon_hit)
  have d: "distinct (Map_keys (decorationCache st'))" using dist assms by blast
  from hit same d cnt show ?thesis
    unfolding run fst_conv snd_conv by (intro conjI)
qed

text \<open>The calls \<open>x\<close>, \<open>search\<close>, \<open>x\<close> on the empty registry create two handles.\<close>

theorem registry_one_handle_per_identifier_witness:
  "fst (getDecorationForIcon_seq readable_env initial_state [''x'', ''search'', ''x'']) =
     [\<lparr>deco_key = 0, gutterIconPath = ''/ext/media/icons/x.svg''\<rparr>,
      \<lparr>deco_key = 1, gutterIconPath = ''/ext/media/icons/search.svg''\<rparr>,
      \<lparr>deco_key = 0, gutterIconPath = ''/ext/media/icons/x.svg''\<rparr>] \<and>
   Map_keys (decorationCache (snd (getDecorationForIcon_seq readable_env initial_state
     [''x'', ''search'', ''x'']))) = [''x'', ''search''] \<and>
   created (snd (getDecorationForIcon_seq readable_env initial_state [''x'', ''search'', ''x''])) = 2"
  using registry_one_handle_per_identifier [of initial_state "''x''" readable_env "[''x'', ''search'', ''x'']"]
  by (simp add: initial_state_def getDecorationForIcon_def Map_get_def Map_set_def Map_has_def
      Map_keys_def iconFsPath_def iconsDirPath_def readable_env_def Let_def)

section \<open>Properties of the decoration updater\<close>

lemma document_foldl_setDecorations: "document (foldl setDecorations editor calls) = document editor"
  by (induction calls arbitrary: editor) (simp_all add: setDecorations_def)

lemma rendered_foldl_setDecorations:
  "rendered (foldl setDecorations editor calls) d =
     (case map_of (rev calls) d of Some ranges \<Rightarrow> ranges | None \<Rightarrow> rendered editor d)"
  by (induction calls rule: rev_induct) (simp_all add: setDecorations_def)

lemma map_of_rev_clear:
  "map_of (rev (map (\<lambda>deco. (deco, [])) ds)) d = (if d \<in> set ds then Some [] else None)"
  by (induction ds) (auto simp: map_add_def split: option.splits)

lemma rendered_clearCalls:
  "rendered (foldl setDecorations editor (clearCalls st)) d =
     (if d \<in> set (Map_values (decorationCache st)) then [] else rendered editor d)"
  by (simp add: rendered_foldl_setDecorations clearCalls_def map_of_rev_clear)

lemma applyRanges_result:
  assumes "applyRanges e st G = (W, st1)"
  shows "(\<forall>k v. Map_get (decorationCache st) k = Some v \<longrightarrow> Map_get (decorationCache st1) k = Some v) \<and>
         W = map (\<lambda>p. (the (Map_get (decorationCache st1) (fst p)), snd p)) G \<and>
         (\<forall>p\<in>set G. Map_get (decorationCache st1) (fst p) \<noteq> None) \<and>
         set (Map_values (decorationCache st)) \<subseteq> set (Map_values (decorationCache st1)) \<and>
         set (Map_values (decorationCache st1)) \<subseteq> set (Map_values (decorationCache st)) \<union> fst ` set W"
  using assms
proof (induction G arbitrary: st W st1)
  case Nil
  then show ?case by simp
next
  case (Cons p G)
  obtain nm ranges where p: "p = (nm, ranges)" by (cases p)
  obtain h sta where step: "getDecorationForIcon e st nm = (h, sta)" by force
  obtain W' stb where rest: "applyRanges e sta G = (W', stb)" by force
  from Cons.prems p step rest have W: "W = (h, ranges) # W'" and st1: "st1 = stb" by simp_all
  note r = getDecorationForIcon_result [OF step]
  note ih = Cons.IH [OF rest]
  note keep' = ih [THEN conjunct1]
  note W'eq = ih [THEN conjunct2, THEN conjunct1]
  note def' = ih [THEN conjunct2, THEN conjunct2, THEN conjunct1]
  note sub1' = ih [THEN conjunct2, THEN conjunct2, THEN conjunct2, THEN conjunct1]
  note sub2' = ih [THEN conjunct2, THEN conjunct2, THEN conjunct2, THEN conjunct2]
  have here: "Map_get (decorationCache stb) nm = Some h" using keep' r(1) by blast
  have keep: "\<forall>k v. Map_get (decorationCache st) k = Some v \<longrightarrow> Map_get (decorationCache st1) k = Some v"
    using r(2) keep' st1 by blast
  have Weq: "W = map (\<lambda>p. (the (Map_get (decorationCache st1) (fst p)), snd p)) (p # G)"
    using W W'eq here p st1 by simp
  have def: "\<forall>q\<in>set (p # G). Map_get (decorationCache st1) (fst q) \<noteq> None"
    using def' here p st1 by simp
  have sub1: "set (Map_values (decorationCache st)) \<subseteq> set (Map_values (decorationCache st1))"
    using r(6) sub1' st1 by blast
  have sub2: "set (Map_values (decorationCache st1)) \<subseteq> set (Map_values (decorationCache st)) \<union> fst ` set W"
  proof
    fix d assume "d \<in> set (Map_values (decorationCache st1))"
    with sub2' st1 have "d \<in> set (Map_values (decorationCache sta)) \<or> d \<in> fst ` set W'" by blast
    then show "d \<in> set (Map_values (decorationCache st)) \<union> fst ` set W"
    proof
      assume "d \<in> set (Map_values (decorationCache sta))"
      with r(7) have "d = h \<or> d \<in> set (Map_values (decorationCache st))" by blast
      then show ?thesis using W by auto
    next
      assume "d \<in> fst ` set W'"
      then show ?thesis using W by auto
    qed
  qed
  from keep Weq def sub1 sub2 show ?case by (intro conjI)
qed

lemma applyRanges_all_present:
  "\<forall>p\<in>set G. Map_get (decorationCache st) (fst p) \<noteq> None \<Longrightarrow>
   applyRanges e st G = (map (\<lambda>p. (the (Map_get (decorationCache st) (fst p)), snd p)) G, st)"
proof (induction G)
  case Nil
  then show ?case by simp
next
  case (Cons p G)
  obtain nm ranges where p: "p = (nm, ranges)" by (cases p)
  from Cons.prems p obtain h where h: "Map_get (decorationCache st) nm = Some h" by auto
  from Cons.prems have "\<forall>p\<in>set G. Map_get (decorationCache st) (fst p) \<noteq> None" by simp
  from Cons.IH [OF this] h p show ?case by (simp add: getDecorationForIcon_hit)
qed

lemma applyRanges_again:
  assumes "applyRanges e st G = (W, st1)"
  shows "applyRanges e st1 G = (W, st1)"
proof -
  note r = applyRanges_result [OF assms]
  from r have "\<forall>p\<in>set G. Map_get (decorationCache st1) (fst p) \<noteq> None" by (intro r [THEN conjunct2, THEN conjunct2, THEN conjunct1])
  from applyRanges_all_present [OF this, of e] r [THEN conjunct2, THEN conjunct1]
  show ?thesis by simp
qed

lemma rendered_twice:
  assumes sub1: "V \<subseteq> V1" and sub2: "V1 \<subseteq> V \<union> fst ` set W"
    and f1: "\<And>d. f1 d = (case map_of (rev W) d of Some ranges \<Rightarrow> ranges
                          | None \<Rightarrow> if d \<in> V then [] else f0 d)"
    and f2: "\<And>d. f2 d = (case map_of (rev W) d of Some ranges \<Rightarrow> ranges
                          | None \<Rightarrow> if d \<in> V1 then [] else f1 d)"
  shows "f2 = f1"
proof
  fix d
  show "f2 d = f1 d"
  proof (cases "map_of (rev W) d")
    case (Some ranges)
    then show ?thesis by (simp add: f1 f2)
  next
    case None
    then have "d \<notin> fst ` set W"
      by (metis map_of_eq_None_iff set_rev)
    with sub1 sub2 have "d \<in> V1 \<longleftrightarrow> d \<in> V" by blast
    with None show ?thesis by (simp add: f1 f2)
  qed
qed

lemma updateDecorations_again:
  "updateDecorations e (fst (updateDecorations e st editor)) (snd (updateDecorations e st editor)) =
   updateDecorations e st editor"
proof (cases "languageId (document editor) \<in> set allowed")
  case False
  let ?ed1 = "foldl setDecorations editor (clearCalls st)"
  have run1: "updateDecorations e st editor = (st, ?ed1)"
    using False by (simp add: updateDecorations_def updateDecorations_calls_def)
  have doc1: "document ?ed1 = document editor" by (rule document_foldl_setDecorations)
  have run2: "updateDecorations e st ?ed1 = (st, foldl setDecorations ?ed1 (clearCalls st))"
    using False doc1 by (simp add: updateDecorations_def updateDecorations_calls_def)
  have "rendered (foldl setDecorations ?ed1 (clearCalls st)) = rendered ?ed1"
    by (rule ext) (simp add: rendered_clearCalls)
  moreover have "document (foldl setDecorations ?ed1 (clearCalls st)) = document ?ed1"
    by (rule document_foldl_setDecorations)
  ultimately have "foldl setDecorations ?ed1 (clearCalls st) = ?ed1" by simp
  with run1 run2 show ?thesis by simp
next
  case True
  obtain W st1 where ar: "applyRanges e st (rangesByIcon (document editor)) = (W, st1)" by force
  let ?ed1 = "foldl setDecorations editor (clearCalls st @ W)"
  let ?ed2 = "foldl setDecorations ?ed1 (clearCalls st1 @ W)"
  have run1: "updateDecorations e st editor = (st1, ?ed1)"
    using True ar by (simp add: updateDecorations_def updateDecorations_calls_def)
  have doc1: "document ?ed1 = document editor" by (rule document_foldl_setDecorations)
  have ar2: "applyRanges e st1 (rangesByIcon (document editor)) = (W, st1)"
    using ar by (rule applyRanges_again)
  have run2: "updateDecorations e st1 ?ed1 = (st1, ?ed2)"
    using True ar2 doc1 by (simp add: updateDecorations_def updateDecorations_calls_def)
  note r = applyRanges_result [OF ar]
  have "rendered ?ed2 = rendered ?ed1"
  proof (rule rendered_twice)
    show "set (Map_values (decorationCache st)) \<subseteq> set (Map_values (decorationCache st1))"
      by (rule r [THEN conjunct2, THEN conjunct2, THEN conjunct2, THEN conjunct1])
    show "set (Map_values (decorationCache st1)) \<subseteq> set (Map_values (decorationCache st)) \<union> fst ` set W"
      by (rule r [THEN conjunct2, THEN conjunct2, THEN conjunct2, THEN conjunct2])
    show "rendered ?ed1 d = (case map_of (rev W) d of Some ranges \<Rightarrow> ranges
          | None \<Rightarrow> if d \<in> set (Map_values (decorationCache st)) then [] else rendered editor d)" for d
      by (simp only: foldl_append rendered_foldl_setDecorations [where calls = W] rendered_clearCalls)
    show "rendered ?ed2 d = (case map_of (rev W) d of Some ranges \<Rightarrow> ranges
          | None \<Rightarrow> if d \<in> set (Map_values (decorationCache st1)) then [] else rendered ?ed1 d)" for d
      by (simp only: foldl_append rendered_foldl_setDecorations [where calls = W] rendered_clearCalls)
  qed
  moreover have "document ?ed2 = document ?ed1" by (rule document_foldl_setDecorations)
  ultimately have "?ed2 = ?ed1" by simp
  with run1 run2 show ?thesis by simp
qed

text \<open>
  Claim C6. For a document whose language is not one of the four allowed ones,
  \<^verbatim>\<open>updateDecorations\<close> calls \<^verbatim>\<open>setDecorations\<close> with the empty span-set once for every
  handle of the registry and makes no other call; it leaves the registry as it is, and
  afterwards the editor shows nothing for any handle of the registry (what it shows for
  other decoration types is untouched).
\<close>

theorem unsupported_language_clears:
  assumes "languageId (document editor) \<notin> set allowed"
  shows "fst (updateDecorations_calls e st (document editor)) =
           map (\<lambda>deco. (deco, [])) (Map_values (decorationCache st)) \<and>
         snd (updateDecorations_calls e st (document editor)) = st \<and>
         list_all (\<lambda>call. snd call = []) (fst (updateDecorations_calls e st (document editor))) \<and>
         fst (updateDecorations e st editor) = st \<and>
         (\<forall>deco. rendered (snd (updateDecorations e st editor)) deco =
            (if deco \<in> set (Map_values (decorationCache st)) then [] else rendered editor deco))"
proof -
  have calls: "updateDecorations_calls e st (document editor) = (clearCalls st, st)"
    using assms by (simp add: updateDecorations_calls_def)
  then have run: "updateDecorations e st editor = (st, foldl setDecorations editor (clearCalls st))"
    by (simp add: updateDecorations_def)
  have "list_all (\<lambda>call. snd call = []) (clearCalls st)"
    by (simp add: clearCalls_def list_all_iff)
  with calls run show ?thesis
    by (simp add: rendered_clearCalls) (simp add: clearCalls_def)
qed

text \<open>A Python document, with the handle of \<open>x\<close> registered and something shown for it.\<close>

theorem unsupported_language_clears_witness:
  "updateDecorations_calls readable_env x_state python_doc =
     ([(\<lparr>deco_key = 0, gutterIconPath = ''/ext/media/icons/x.svg''\<rparr>, [])], x_state) \<and>
   rendered (snd (updateDecorations readable_env x_state python_editor))
     \<lparr>deco_key = 0, gutterIconPath = ''/ext/media/icons/x.svg''\<rparr> = []"
  using unsupported_language_clears [of python_editor readable_env x_state]
  by (simp add: python_editor_def python_doc_def allowed_def x_state_def Map_values_def
      prod_eq_iff)

text \<open>
  Claim C7. Running \<^verbatim>\<open>updateDecorations\<close> a second time on the unchanged document gives
  the state and the editor of the first run again: the same span-set is shown for every
  handle and the registry is the same. The second run groups the same spans under the same
  identifiers, and after its clearing calls it makes the same calls, with the same handles
  and span-sets, as the first run made after its own.
\<close>

theorem updateDecorations_idempotent:
  "updateDecorations e (fst (updateDecorations e st editor)) (snd (updateDecorations e st editor)) =
     updateDecorations e st editor \<and>
   rangesByIcon (document (snd (updateDecorations e st editor))) = rangesByIcon (document editor) \<and>
   drop (length (clearCalls (fst (updateDecorations e st editor))))
     (fst (updateDecorations_calls e (fst (updateDecorations e st editor))
        (document (snd (updateDecorations e st editor))))) =
   drop (length (clearCalls st)) (fst (updateDecorations_calls e st (document editor)))"
proof (intro conjI)
  show "updateDecorations e (fst (updateDecorations e st editor)) (snd (updateDecorations e st editor)) =
     updateDecorations e st editor"
    by (rule updateDecorations_again)
  have doc: "document (snd (updateDecorations e st editor)) = document editor"
    by (simp add: updateDecorations_def document_foldl_setDecorations split: prod.splits)
  then show "rangesByIcon (document (snd (updateDecorations e st editor))) = rangesByIcon (document editor)"
    by simp
  show "drop (length (clearCalls (fst (updateDecorations e st editor))))
     (fst (updateDecorations_calls e (fst (updateDecorations e st editor))
        (document (snd (updateDecorations e st editor))))) =
   drop (length (clearCalls st)) (fst (updateDecorations_calls e st (document editor)))"
  proof (cases "languageId (document editor) \<in> set allowed")
    case False
    then show ?thesis
      unfolding doc by (simp add: updateDecorations_def updateDecorations_calls_def)
  next
    case True
    obtain W st1 where ar: "applyRanges e st (rangesByIcon (document editor)) = (W, st1)" by force
    then have ar2: "applyRanges e st1 (rangesByIcon (document editor)) = (W, st1)"
      by (rule applyRanges_again)
    have "fst (updateDecorations e st editor) = st1"
      using True ar by (simp add: updateDecorations_def updateDecorations_calls_def)
    with True ar ar2 show ?thesis
      unfolding doc by (simp add: updateDecorations_calls_def)
  qed
qed

lemma html_doc_ranges:
  "rangesByIcon html_doc =
     [(''search'', [\<lparr>range_start = \<lparr>line = 0, character = 10\<rparr>, range_end = \<lparr>line = 0, character = 22\<rparr>\<rparr>]),
      (''a'', [\<lparr>range_start = \<lparr>line = 1, character = 0\<rparr>, range_end = \<lparr>line = 1, character = 7\<rparr>\<rparr>,
               \<lparr>range_start = \<lparr>line = 2, character = 0\<rparr>, range_end = \<lparr>line = 2, character = 7\<rparr>\<rparr>]),
      (''b'', [\<lparr>range_start = \<lparr>line = 1, character = 8\<rparr>, range_end = \<lparr>line = 1, character = 15\<rparr>\<rparr>])]"
  by code_simp

lemma html_doc_calls:
  "updateDecorations_calls readable_env initial_state html_doc =
     ([(\<lparr>deco_key = 0, gutterIconPath = ''/ext/media/icons/search.svg''\<rparr>,
        [\<lparr>range_start = \<lparr>line = 0, character = 10\<rparr>, range_end = \<lparr>line = 0, character = 22\<rparr>\<rparr>]),
       (\<lparr>deco_key = 1, gutterIconPath = ''/ext/media/icons/a.svg''\<rparr>,
        [\<lparr>range_start = \<lparr>line = 1, character = 0\<rparr>, range_end = \<lparr>line = 1, character = 7\<rparr>\<rparr>,
         \<lparr>range_start = \<lparr>line = 2, character = 0\<rparr>, range_end = \<lparr>line = 2, character = 7\<rparr>\<rparr>]),
       (\<lparr>deco_key = 2, gutterIconPath = ''/ext/media/icons/b.svg''\<rparr>,
        [\<lparr>range_start = \<lparr>line = 1, character = 8\<rparr>, range_end = \<lparr>line = 1, character = 15\<rparr>\<rparr>])],
      \<lparr>decorationCache =
         [(''search'', \<lparr>deco_key = 0, gutterIconPath = ''/ext/media/icons/search.svg''\<rparr>),
          (''a'', \<lparr>deco_key = 1, gutterIconPath = ''/ext/media/icons/a.svg''\<rparr>),
          (''b'', \<lparr>deco_key = 2, gutterIconPath = ''/ext/media/icons/b.svg''\<rparr>)],
       created = 3\<rparr>)"
  by (simp add: updateDecorations_calls_def html_doc_ranges clearCalls_def Map_values_def
      initial_state_def getDecorationForIcon_def Map_get_def Map_set_def Map_has_def iconFsPath_def
      iconsDirPath_def readable_env_def Let_def)
     (simp add: html_doc_def allowed_def)

text \<open>The example document, from the empty registry: three handles, shown again unchanged.\<close>

theorem updateDecorations_idempotent_witness:
  "updateDecorations readable_env (fst (updateDecorations readable_env initial_state html_editor))
     (snd (updateDecorations readable_env initial_state html_editor)) =
   updateDecorations readable_env initial_state html_editor \<and>
   created (fst (updateDecorations readable_env initial_state html_editor)) = 3 \<and>
   rendered (snd (updateDecorations readable_env initial_state html_editor))
     \<lparr>deco_key = 2, gutterIconPath = ''/ext/media/icons/b.svg''\<rparr> =
     [\<lparr>range_start = \<lparr>line = 1, character = 8\<rparr>, range_end = \<lparr>line = 1, character = 15\<rparr>\<rparr>]"
  using updateDecorations_idempotent [of readable_env initial_state html_editor]
  by (simp add: updateDecorations_def html_editor_def html_doc_calls setDecorations_def)

section \<open>The catalog load and the suggestion provider\<close>

lemma iconFsPath_readdir: "iconFsPath (e\<lparr>readdirSync := rd\<rparr>) file = iconFsPath e file"
  by (simp add: iconFsPath_def iconsDirPath_def)

lemma getDecorationForIcon_readdir:
  "getDecorationForIcon (e\<lparr>readdirSync := rd\<rparr>) st nm = getDecorationForIcon e st nm"
  unfolding getDecorationForIcon_def iconFsPath_readdir by (rule refl)

lemma applyRanges_readdir:
  "applyRanges (e\<lparr>readdirSync := rd\<rparr>) st G = applyRanges e st G"
proof (induction G arbitrary: st)
  case Nil
  show ?case by simp
next
  case (Cons p G)
  obtain nm ranges where p: "p = (nm, ranges)" by (cases p)
  show ?case unfolding p applyRanges.simps getDecorationForIcon_readdir Cons.IH by (rule refl)
qed

lemma updateDecorations_readdir:
  "updateDecorations (e\<lparr>readdirSync := rd\<rparr>) st editor = updateDecorations e st editor"
  by (simp add: updateDecorations_def updateDecorations_calls_def applyRanges_readdir)

text \<open>
  Claim C8, as the code has it. When the icon directory cannot be read at the first catalog
  load, \<^verbatim>\<open>loadIconFiles\<close> throws the read error and memoises nothing, so the next request
  reads the directory again. A suggestion request that reaches the load (the line contains
  \<^verbatim>\<open>ti \<close> and the cursor is in a matching word) ends with that error: nothing in the
  extension catches it, and it goes to the host. A request that does not reach the load
  returns nothing, as always. The decoration updater never reads the directory: its result
  does not depend on what \<^verbatim>\<open>readdirSync\<close> answers.
\<close>

theorem catalog_failure_propagates:
  assumes "readdirSync e (iconsDirPath e) = Inl err"
  shows "loadIconFiles e None = (Inl err, None) \<and>
         (str_includes lineText ''ti '' \<and> wordRange \<noteq> None \<longrightarrow>
            provideCompletionItems e None lineText wordRange = (Inl err, None)) \<and>
         (\<not> (str_includes lineText ''ti '' \<and> wordRange \<noteq> None) \<longrightarrow>
            provideCompletionItems e None lineText wordRange = (Inr None, None)) \<and>
         updateDecorations (e\<lparr>readdirSync := rd\<rparr>) st editor = updateDecorations e st editor"
proof -
  have load: "loadIconFiles e None = (Inl err, None)"
    using assms by (simp add: loadIconFiles_def)
  then show ?thesis
    by (simp add: provideCompletionItems_def updateDecorations_readdir)
qed

lemma includes_marker: "str_includes ''ti ti-'' ''ti ''"
  by code_simp

lemma includes_hello: "\<not> str_includes ''hello'' ''ti ''"
  by code_simp

text \<open>A missing directory: a request on \<^verbatim>\<open>ti ti-\<close> fails, a request on \<^verbatim>\<open>hello\<close> returns nothing.\<close>

theorem catalog_failure_propagates_witness:
  "loadIconFiles unreadable_env None = (Inl ENOENT, None) \<and>
   provideCompletionItems unreadable_env None ''ti ti-'' (Some (3, 6)) = (Inl ENOENT, None) \<and>
   provideCompletionItems unreadable_env None ''hello'' (Some (0, 5)) = (Inr None, None)"
  using catalog_failure_propagates [of unreadable_env ENOENT "''ti ti-''" "Some (3, 6)"]
    catalog_failure_propagates [of unreadable_env ENOENT "''hello''" "Some (0, 5)"]
  by (simp add: unreadable_env_def includes_marker includes_hello)

lemma html_doc_calls_unreadable:
  "fst (updateDecorations_calls unreadable_env initial_state html_doc) =
     [(\<lparr>deco_key = 0, gutterIconPath = ''/ext/media/icons/search.svg''\<rparr>,
        [\<lparr>range_start = \<lparr>line = 0, character = 10\<rparr>, range_end = \<lparr>line = 0, character = 22\<rparr>\<rparr>]),
      (\<lparr>deco_key = 1, gutterIconPath = ''/ext/media/icons/a.svg''\<rparr>,
        [\<lparr>range_start = \<lparr>line = 1, character = 0\<rparr>, range_end = \<lparr>line = 1, character = 7\<rparr>\<rparr>,
         \<lparr>range_start = \<lparr>line = 2, character = 0\<rparr>, range_end = \<lparr>line = 2, character = 7\<rparr>\<rparr>]),
      (\<lparr>deco_key = 2, gutterIconPath = ''/ext/media/icons/b.svg''\<rparr>,
        [\<lparr>range_start = \<lparr>line = 1, character = 8\<rparr>, range_end = \<lparr>line = 1, character = 15\<rparr>\<rparr>])]"
  by (simp add: updateDecorations_calls_def html_doc_ranges clearCalls_def Map_values_def
      initial_state_def getDecorationForIcon_def Map_get_def Map_set_def Map_has_def iconFsPath_def
      iconsDirPath_def unreadable_env_def Let_def)
     (simp add: html_doc_def allowed_def)

text \<open>
  Claim C8 as stated (the failure is caught, the request returns a degraded result, and no
  decorations are offered) fails: with the directory missing the suggestion request ends
  with the error \<open>ENOENT\<close>, and the decoration updater still decorates the three icons of
  the example document.
\<close>

theorem catalog_failure_counterexample:
  "provideCompletionItems unreadable_env None ''ti ti-'' (Some (3, 6)) = (Inl ENOENT, None) \<and>
   fst (updateDecorations_calls unreadable_env initial_state html_doc) =
     [(\<lparr>deco_key = 0, gutterIconPath = ''/ext/media/icons/search.svg''\<rparr>,
        [\<lparr>range_start = \<lparr>line = 0, character = 10\<rparr>, range_end = \<lparr>line = 0, character = 22\<rparr>\<rparr>]),
      (\<lparr>deco_key = 1, gutterIconPath = ''/ext/media/icons/a.svg''\<rparr>,
        [\<lparr>range_start = \<lparr>line = 1, character = 0\<rparr>, range_end = \<lparr>line = 1, character = 7\<rparr>\<rparr>,
         \<lparr>range_start = \<lparr>line = 2, character = 0\<rparr>, range_end = \<lparr>line = 2, character = 7\<rparr>\<rparr>]),
      (\<lparr>deco_key = 2, gutterIconPath = ''/ext/media/icons/b.svg''\<rparr>,
        [\<lparr>range_start = \<lparr>line = 1, character = 8\<rparr>, range_end = \<lparr>line = 1, character = 15\<rparr>\<rparr>])]"
proof (rule conjI)
  show "provideCompletionItems unreadable_env None ''ti ti-'' (Some (3, 6)) = (Inl ENOENT, None)"
    by (simp add: provideCompletionItems_def loadIconFiles_def unreadable_env_def includes_marker)
qed (rule html_doc_calls_unreadable)

text \<open>
  \<^verbatim>\<open>resolveCompletionItem\<close> is the only caller of \<^verbatim>\<open>getSvgDataUrl\<close>, and it passes no empty
  icon name: whatever the item's entry is, a call keeps the invariant of the image cache.
\<close>

lemma resolveCompletionItem_keeps_inv:
  assumes "cache_inv cap c"
  shows "cache_inv cap (snd (resolveCompletionItem cap e c item data))"
proof (cases data)
  case None
  with assms show ?thesis by (simp add: resolveCompletionItem_def)
next
  case (Some d)
  show ?thesis
  proof (cases "iconName d = [] \<or> className d = []")
    case True
    with Some assms show ?thesis by (simp add: resolveCompletionItem_def)
  next
    case False
    obtain res c' where step: "getSvgDataUrl cap e c (iconName d) = (res, c')" by force
    from False have "iconName d \<noteq> []" by simp
    from getSvgDataUrl_step [OF assms this step] have "cache_inv cap c'" by simp
    with Some False step show ?thesis
      by (cases res) (simp_all add: resolveCompletionItem_def)
  qed
qed

section \<open>The image cache under the requests of the extension\<close>

text \<open>
  \<^verbatim>\<open>getSvgDataUrl\<close> is private to the module and \<^verbatim>\<open>resolveCompletionItem\<close> holds its only
  call: a sequence of requests does to the cache what the sequence of its
  \<^verbatim>\<open>getSvgDataUrl\<close> calls does, and none of these calls has an empty name.
\<close>

lemma resolveCompletionItem_cache:
  "snd (resolveCompletionItem cap e c item data) =
     (case svgRequest data of None \<Rightarrow> c | Some nm \<Rightarrow> snd (getSvgDataUrl cap e c nm))"
proof (cases data)
  case None
  then show ?thesis by (simp add: resolveCompletionItem_def svgRequest_def)
next
  case (Some d)
  show ?thesis
  proof (cases "iconName d = [] \<or> className d = []")
    case True
    with Some show ?thesis by (simp add: resolveCompletionItem_def svgRequest_def)
  next
    case False
    obtain res c' where step: "getSvgDataUrl cap e c (iconName d) = (res, c')" by force
    with Some False show ?thesis
      by (cases res) (simp_all add: resolveCompletionItem_def svgRequest_def)
  qed
qed

lemma resolveCompletionItem_seq_calls:
  "resolveCompletionItem_seq cap c reqs = getSvgDataUrl_seq cap c (svgCalls reqs)"
proof (induction reqs arbitrary: c)
  case Nil
  show ?case by simp
next
  case (Cons r reqs)
  obtain e item data where r: "r = (e, item, data)" by (cases r)
  obtain item' c1 where step: "resolveCompletionItem cap e c item data = (item', c1)" by force
  have c1: "c1 = (case svgRequest data of None \<Rightarrow> c | Some nm \<Rightarrow> snd (getSvgDataUrl cap e c nm))"
    using resolveCompletionItem_cache [of cap e c item data] step by simp
  show ?case
  proof (cases "svgRequest data")
    case None
    with c1 step r Cons.IH [of c] show ?thesis by (simp add: split_beta)
  next
    case (Some nm)
    with c1 step r Cons.IH [of c1] show ?thesis by (simp add: split_beta)
  qed
qed

lemma svgCalls_snoc:
  "svgCalls (reqs @ [(e, item, data)]) =
     svgCalls reqs @ (case svgRequest data of None \<Rightarrow> [] | Some nm \<Rightarrow> [(e, nm)])"
  by (induction reqs) (auto split: option.splits)

lemma svgRequest_nonempty: "svgRequest data = Some nm \<Longrightarrow> nm \<noteq> []"
  by (auto simp: svgRequest_def split: option.splits if_splits)

lemma svgCalls_nonempty: "\<forall>q\<in>set (svgCalls reqs). snd q \<noteq> []"
proof (induction reqs)
  case Nil
  show ?case by simp
next
  case (Cons r reqs)
  obtain e item data where r: "r = (e, item, data)" by (cases r)
  show ?case
    using Cons.IH unfolding r
    by (cases "svgRequest data") (simp_all add: svgRequest_nonempty)
qed

text \<open>
  Claim C1. For every finite sequence of operations of the extension on the image cache,
  started on the empty cache, at every bound \<open>cap\<close> and whatever the items, their entries
  and the file system are at each request: after the last request the cache holds at most
  \<open>cap\<close> entries; its keys, newest first, are exactly the \<open>cap\<close> most recently accessed
  distinct identifiers, where an access is a \<^verbatim>\<open>getSvgDataUrl\<close> call that returned a payload
  (a hit of \<^verbatim>\<open>lruGet\<close> or an insert by \<^verbatim>\<open>lruSet\<close>); and every key that the last request
  removed from the cache was the least recently accessed of the keys the cache held before
  it. The sequence is arbitrary, so this holds after every operation.
\<close>

theorem image_cache_lru:
  "Map_size (snd (resolveCompletionItem_seq cap [] (reqs @ [(e, item, data)]))) \<le> cap \<and>
   rev (Map_keys (snd (resolveCompletionItem_seq cap [] (reqs @ [(e, item, data)])))) =
     most_recent cap (accesses (fst (resolveCompletionItem_seq cap [] (reqs @ [(e, item, data)])))) \<and>
   set (Map_keys (snd (resolveCompletionItem_seq cap [] (reqs @ [(e, item, data)])))) =
     set (most_recent cap (accesses (fst (resolveCompletionItem_seq cap [] (reqs @ [(e, item, data)]))))) \<and>
   (\<forall>k. k \<in> set (Map_keys (snd (resolveCompletionItem_seq cap [] reqs))) \<and>
        k \<notin> set (Map_keys (snd (resolveCompletionItem_seq cap [] (reqs @ [(e, item, data)])))) \<longrightarrow>
        least_recent k (Map_keys (snd (resolveCompletionItem_seq cap [] reqs)))
          (accesses (fst (resolveCompletionItem_seq cap [] reqs))))"
proof (cases "svgRequest data")
  case None
  then have same: "svgCalls (reqs @ [(e, item, data)]) = svgCalls reqs"
    by (simp add: svgCalls_snoc)
  obtain log c where run: "getSvgDataUrl_seq cap [] (svgCalls reqs) = (log, c)" by force
  from getSvgDataUrl_seq_inv [OF svgCalls_nonempty run]
  have inv: "cache_inv cap c" and keys: "rev (map fst c) = most_recent cap (accesses log)"
    by simp_all
  have "length c \<le> cap" using inv by (simp add: cache_inv_def)
  moreover have "set (map fst c) = set (most_recent cap (accesses log))"
    using keys by (metis set_rev)
  ultimately show ?thesis
    using keys by (simp add: resolveCompletionItem_seq_calls same run Map_size_def Map_keys_def)
next
  case (Some nm)
  then have calls: "svgCalls (reqs @ [(e, item, data)]) = svgCalls reqs @ [(e, nm)]"
    by (simp add: svgCalls_snoc)
  have "\<forall>q\<in>set (svgCalls reqs @ [(e, nm)]). snd q \<noteq> []"
    using svgCalls_nonempty [of "reqs @ [(e, item, data)]"] unfolding calls .
  from getSvgDataUrl_seq_lru [OF this, of cap] show ?thesis
    unfolding resolveCompletionItem_seq_calls calls .
qed

text \<open>
  The spec's scenario at bound 2, with a request for the directory entry \<^verbatim>\<open>.svg\<close> (whose
  icon name is empty) in between: the accesses are \<open>x\<close>, \<open>search\<close>, \<open>a\<close>, \<open>x\<close>, and
  they leave \<open>a\<close> and \<open>x\<close>; the last request evicted \<open>search\<close>.
\<close>

lemma scenario_calls:
  "svgCalls [resolve_request ''x.svg'', resolve_request ''search.svg'', resolve_request ''.svg'',
             resolve_request ''a.svg''] =
     [(readable_env, ''x''), (readable_env, ''search''), (readable_env, ''a'')]"
  by (simp add: resolve_request_def newItem_def svgRequest_def)

lemma scenario_calls_all:
  "svgCalls ([resolve_request ''x.svg'', resolve_request ''search.svg'', resolve_request ''.svg'',
              resolve_request ''a.svg''] @ [resolve_request ''x.svg'']) =
     [(readable_env, ''x''), (readable_env, ''search''), (readable_env, ''a''), (readable_env, ''x'')]"
  by (simp add: resolve_request_def newItem_def svgRequest_def)

theorem image_cache_lru_witness:
  "Map_keys (snd (resolveCompletionItem_seq 2 []
      ([resolve_request ''x.svg'', resolve_request ''search.svg'', resolve_request ''.svg'',
        resolve_request ''a.svg''] @ [resolve_request ''x.svg'']))) = [''a'', ''x''] \<and>
   accesses (fst (resolveCompletionItem_seq 2 []
      ([resolve_request ''x.svg'', resolve_request ''search.svg'', resolve_request ''.svg'',
        resolve_request ''a.svg''] @ [resolve_request ''x.svg'']))) = [''x'', ''search'', ''a'', ''x''] \<and>
   Map_keys (snd (resolveCompletionItem_seq 2 []
      [resolve_request ''x.svg'', resolve_request ''search.svg'', resolve_request ''.svg'',
       resolve_request ''a.svg''])) = [''search'', ''a''] \<and>
   least_recent ''search'' [''search'', ''a''] [''x'', ''search'', ''a'']"
proof -
  have ev: "Map_keys (snd (resolveCompletionItem_seq 2 []
      ([resolve_request ''x.svg'', resolve_request ''search.svg'', resolve_request ''.svg'',
        resolve_request ''a.svg''] @ [resolve_request ''x.svg'']))) = [''a'', ''x''] \<and>
   accesses (fst (resolveCompletionItem_seq 2 []
      ([resolve_request ''x.svg'', resolve_request ''search.svg'', resolve_request ''.svg'',
        resolve_request ''a.svg''] @ [resolve_request ''x.svg'']))) = [''x'', ''search'', ''a'', ''x''] \<and>
   Map_keys (snd (resolveCompletionItem_seq 2 []
      [resolve_request ''x.svg'', resolve_request ''search.svg'', resolve_request ''.svg'',
       resolve_request ''a.svg''])) = [''search'', ''a''] \<and>
   least_recent ''search'' [''search'', ''a''] [''x'', ''search'', ''a'']"
    unfolding resolveCompletionItem_seq_calls scenario_calls scenario_calls_all
    by (simp add: cache_eval accesses_def most_recent_def least_recent_def)
  from image_cache_lru [of 2 "[resolve_request ''x.svg'', resolve_request ''search.svg'',
      resolve_request ''.svg'', resolve_request ''a.svg'']" "fst (resolve_request ''x.svg'')"
      "fst (snd (resolve_request ''x.svg''))" "snd (snd (resolve_request ''x.svg''))"] ev
  show ?thesis by - assumption
qed

end
